theory Spec2Isabelle
  imports Complex_Main
begin

section \<open>Values, messages and response envelopes\<close>

text \<open>
  The embedding follows \<^verbatim>\<open>src/qianfan/resources/llm/chat_completion.py\<close>
  (class \<^verbatim>\<open>ChatCompletion\<close>: \<^verbatim>\<open>do\<close>, \<^verbatim>\<open>_stream_concat_truncated\<close>, \<^verbatim>\<open>ado\<close>,
  \<^verbatim>\<open>_async_stream_concat_truncated\<close>).

  Python values that the continuation code reads out of a response body or stores as
  the content of a message: JSON scalars (floats, lists and objects are left out).
\<close>

datatype pyval = PStr string | PBool bool | PInt int | PNone

text \<open>Python truthiness, as \<^verbatim>\<open>while is_truncated:\<close> and \<^verbatim>\<open>if not is_truncated:\<close> use it.\<close>

fun truthy :: "pyval \<Rightarrow> bool" where
  "truthy (PStr s) = (s \<noteq> [])"
| "truthy (PBool b) = b"
| "truthy (PInt i) = (i \<noteq> 0)"
| "truthy PNone = False"

datatype exn =
    KeyError string
  | TypeError
  | AssertionError
  | ExecutorError nat

text \<open>
  \<^verbatim>\<open>x += y\<close> at the two places the source uses it: the right operand is
  \<^verbatim>\<open>resp["result"]\<close> and the left operand is a string, or (for \<^verbatim>\<open>entire_content\<close>)
  whatever the first response held. A \<^verbatim>\<open>str\<close> only adds to a \<^verbatim>\<open>str\<close>; for the
  scalars modelled here every other pair reached by the code (the left operand
  \<^verbatim>\<open>cur_content\<close> is always a \<^verbatim>\<open>str\<close>, and \<^verbatim>\<open>entire_content\<close> is added to only after
  that addition succeeded, so with a \<^verbatim>\<open>str\<close> on the right) raises \<^verbatim>\<open>TypeError\<close>.
\<close>

fun py_iadd :: "pyval \<Rightarrow> pyval \<Rightarrow> exn + pyval" where
  "py_iadd (PStr a) (PStr b) = Inr (PStr (a @ b))"
| "py_iadd _ _ = Inl TypeError"

text \<open>The dict \<^verbatim>\<open>{"content": c, "role": r}\<close> of the raw record list.\<close>

record msg =
  content :: pyval
  role :: string

text \<open>
  Modelled from the spec: \<^verbatim>\<open>QfRole\<close>, \<^verbatim>\<open>QfMessages\<close> and \<^verbatim>\<open>QfResponse\<close> come from
  \<^verbatim>\<open>qianfan.resources.typing\<close>, which is not among the sources. The spec's data model
  gives a message a role out of System, User, Assistant and a content; a message
  buffer is an ordered sequence of messages, changed only by \<^verbatim>\<open>append(content, role)\<close>
  at the end, and \<^verbatim>\<open>toRecordList()\<close> produces the plain records without side effect.
  The strings of the two roles the source uses are the ones its raw-record branch
  writes (\<^verbatim>\<open>"assistant"\<close>, \<^verbatim>\<open>"user"\<close>).
\<close>

datatype QfRole = User | Assistant | System

record QfMessage =
  qf_role :: QfRole
  qf_content :: pyval

fun role_value :: "QfRole \<Rightarrow> string" where
  "role_value User = ''user''"
| "role_value Assistant = ''assistant''"
| "role_value System = ''system''"

definition to_dict :: "QfMessage \<Rightarrow> msg" where
  "to_dict m = \<lparr>content = qf_content m, role = role_value (qf_role m)\<rparr>"

text \<open>
  Modelled from the spec: a response envelope carries a mutable body map, and its
  \<^verbatim>\<open>result\<close>, \<^verbatim>\<open>is_truncated\<close> and \<^verbatim>\<open>is_end\<close> are entries of that body
  (\<^verbatim>\<open>result\<close>/\<^verbatim>\<open>body["result"]\<close>). Reading \<^verbatim>\<open>resp[key]\<close> for a key the body lacks is a
  failure, never a default (spec, error taxonomy (b)): \<^verbatim>\<open>KeyError\<close>.
\<close>

record QfResponse =
  body :: "string \<rightharpoonup> pyval"

definition getitem :: "QfResponse \<Rightarrow> string \<Rightarrow> exn + pyval" where
  "getitem r k = (case body r k of None \<Rightarrow> Inl (KeyError k) | Some v \<Rightarrow> Inr v)"

text \<open>
  The literal \<^verbatim>\<open>"\<close>...\<^verbatim>\<open>"\<close> of the continuation request (U+7EE7 U+7EED, "continue"),
  as its UTF-8 bytes.
\<close>

definition continue_prompt :: string where
  "continue_prompt = [CHR 0xE7, CHR 0xBB, CHR 0xA7, CHR 0xE7, CHR 0xBB, CHR 0xAD]"

section \<open>Objects, the store and the request executor\<close>

text \<open>
  The \<^verbatim>\<open>messages\<close> argument is a reference to a mutable object: a Python list of
  records or a \<^verbatim>\<open>QfMessages\<close> buffer. The store maps addresses to such objects;
  \<^verbatim>\<open>fresh\<close> is the next unused address. The records inside are never mutated by the
  code, so they are kept as values. \<^verbatim>\<open>sent\<close> is the log of the requests handed to
  \<^verbatim>\<open>self._do\<close> so far, each with the messages object as it was at the call.
\<close>

datatype pyobj = PyList "msg list" | QfMessagesObj "QfMessage list"

record params =
  model :: "string option"
  endpoint :: "string option"
  retry_count :: int
  request_timeout :: real
  backoff_factor :: real
  kwargs :: "(string \<times> pyval) list"

record request =
  req_params :: params
  req_stream :: bool
  req_messages :: pyobj

record state =
  cells :: "nat \<Rightarrow> pyobj"
  fresh :: nat
  sent :: "request list"

datatype reply = Single QfResponse | Stream "QfResponse list"

text \<open>
  The Request Executor (\<^verbatim>\<open>self._do\<close>, \<^verbatim>\<open>self._ado\<close> of \<^verbatim>\<open>BaseResource\<close>) is outside
  the sources: it is a parameter, a function of the number of calls made before and of
  the request, that answers with a reply or raises.
\<close>

type_synonym executor = "nat \<Rightarrow> request \<Rightarrow> exn + reply"

definition alloc :: "pyobj \<Rightarrow> state \<Rightarrow> nat \<times> state" where
  "alloc obj s = (fresh s, s\<lparr>cells := (cells s)(fresh s := obj), fresh := Suc (fresh s)\<rparr>)"

text \<open>\<^verbatim>\<open>isinstance(messages, QfMessages)\<close>\<close>

definition is_QfMessages :: "pyobj \<Rightarrow> bool" where
  "is_QfMessages obj = (case obj of QfMessagesObj _ \<Rightarrow> True | PyList _ \<Rightarrow> False)"

text \<open>
  Modelled from the spec: \<^verbatim>\<open>QfMessages._to_list()\<close> builds the list of plain records
  of the buffer (here: of its entries \<open>ms\<close>), a new object, and leaves the buffer as
  it was.
\<close>

definition to_list :: "QfMessage list \<Rightarrow> state \<Rightarrow> nat \<times> state" where
  "to_list ms s = alloc (PyList (map to_dict ms)) s"

text \<open>\<^verbatim>\<open>copy.deepcopy(messages)\<close>: a new object with the same entries.\<close>

definition deepcopy :: "nat \<Rightarrow> state \<Rightarrow> nat \<times> state" where
  "deepcopy a s = alloc (cells s a) s"

text \<open>
  The two appends of a continuation round, on the object at address \<open>a\<close>:
  \<^verbatim>\<open>
  if isinstance(msgs, QfMessages):
      msgs.append(cur_content, QfRole.Assistant)
      msgs.append("...", QfRole.User)
  else:
      msgs.append({"content": cur_content, "role": "assistant"})
      msgs.append({"content": "...", "role": "user"})
  \<close>
  The same six lines stand in \<^verbatim>\<open>do\<close>, \<^verbatim>\<open>_stream_concat_truncated\<close>, \<^verbatim>\<open>ado\<close> and
  \<^verbatim>\<open>_async_stream_concat_truncated\<close>.
\<close>

definition append_continuation :: "nat \<Rightarrow> pyval \<Rightarrow> state \<Rightarrow> state" where
  "append_continuation a cur_content s =
     (case cells s a of
        QfMessagesObj ms \<Rightarrow>
          s\<lparr>cells := (cells s)(a := QfMessagesObj
              (ms @ [\<lparr>qf_role = Assistant, qf_content = cur_content\<rparr>,
                     \<lparr>qf_role = User, qf_content = PStr continue_prompt\<rparr>]))\<rparr>
      | PyList xs \<Rightarrow>
          s\<lparr>cells := (cells s)(a := PyList
              (xs @ [\<lparr>content = cur_content, role = ''assistant''\<rparr>,
                     \<lparr>content = PStr continue_prompt, role = ''user''\<rparr>]))\<rparr>)"

text \<open>
  \<^verbatim>\<open>self._do(model, endpoint, stream, retry_count, request_timeout, backoff_factor,
  **kwargs)\<close> with \<^verbatim>\<open>kwargs["messages"]\<close> the object at address \<open>a\<close>: the executor
  sees the object as it is now, and the request is logged.
\<close>

definition private_do :: "executor \<Rightarrow> params \<Rightarrow> bool \<Rightarrow> nat \<Rightarrow> state \<Rightarrow> (exn + reply) \<times> state" where
  "private_do ex p strm a s =
     (let req = \<lparr>req_params = p, req_stream = strm, req_messages = cells s a\<rparr>
      in (ex (length (sent s)) req, s\<lparr>sent := sent s @ [req]\<rparr>))"

section \<open>The non-streaming continuation loop\<close>

text \<open>
  The body of \<^verbatim>\<open>while is_truncated:\<close> in \<^verbatim>\<open>do\<close> (lines 286-306) up to the test
  \<^verbatim>\<open>if not is_truncated\<close>: the appends, \<^verbatim>\<open>cur_content = ""\<close>, the call, the
  assertion, the two \<^verbatim>\<open>+=\<close> and the new flag. It gives the new \<^verbatim>\<open>cur_content\<close>,
  \<^verbatim>\<open>entire_content\<close>, \<^verbatim>\<open>is_truncated\<close> and \<^verbatim>\<open>resp\<close>, or the exception raised.
\<close>

definition continuation_round ::
  "executor \<Rightarrow> params \<Rightarrow> nat \<Rightarrow> pyval \<Rightarrow> pyval \<Rightarrow> state
     \<Rightarrow> (exn + pyval \<times> pyval \<times> pyval \<times> QfResponse) \<times> state" where
  "continuation_round ex p msgs cur_content entire_content s =
     (let s1 = append_continuation msgs cur_content s;
          (r, s2) = private_do ex p False msgs s1
      in case r of
           Inl e \<Rightarrow> (Inl e, s2)
         | Inr (Stream _) \<Rightarrow> (Inl AssertionError, s2)
         | Inr (Single resp) \<Rightarrow>
             (case getitem resp ''result'' of
                Inl e \<Rightarrow> (Inl e, s2)
              | Inr v \<Rightarrow>
                 (case py_iadd (PStr []) v of
                    Inl e \<Rightarrow> (Inl e, s2)
                  | Inr cur' \<Rightarrow>
                     (case py_iadd entire_content v of
                        Inl e \<Rightarrow> (Inl e, s2)
                      | Inr entire' \<Rightarrow>
                         (case getitem resp ''is_truncated'' of
                            Inl e \<Rightarrow> (Inl e, s2)
                          | Inr t \<Rightarrow> (Inr (cur', entire', t, resp), s2))))))"

text \<open>\<^verbatim>\<open>resp.body["result"] = entire_content\<close>\<close>

definition set_result :: "QfResponse \<Rightarrow> pyval \<Rightarrow> QfResponse" where
  "set_result resp v = resp\<lparr>body := (body resp)(''result'' \<mapsto> v)\<rparr>"

text \<open>
  The loop itself. It has no bound in the source, so it is a partial function: \<open>None\<close>
  is the loop that never ends. \<open>Some (Inl e, s)\<close> is an exception leaving \<^verbatim>\<open>do\<close>,
  \<open>Some (Inr resp, s)\<close> a returned response.
\<close>

partial_function (option) concat_loop ::
  "executor \<Rightarrow> params \<Rightarrow> nat \<Rightarrow> pyval \<Rightarrow> pyval \<Rightarrow> pyval \<Rightarrow> QfResponse \<Rightarrow> state
     \<Rightarrow> ((exn + QfResponse) \<times> state) option" where
  "concat_loop ex p msgs cur_content entire_content is_truncated resp s =
     (if truthy is_truncated then
        (case continuation_round ex p msgs cur_content entire_content s of
           (Inl e, s') \<Rightarrow> Some (Inl e, s')
         | (Inr (cur', entire', t, resp'), s') \<Rightarrow>
             if \<not> truthy t then Some (Inr (set_result resp' entire'), s')
             else concat_loop ex p msgs cur' entire' t resp' s')
      else Some (Inr resp, s))"

section \<open>The streaming continuation producer\<close>

text \<open>
  \<^verbatim>\<open>for r in first_resp: cur_content += r["result"]; yield r\<close> (lines 349-351). The
  envelopes yielded so far, and the fragment or the exception that ends the producer.
\<close>

fun first_stream_loop :: "QfResponse list \<Rightarrow> pyval \<Rightarrow> QfResponse list \<times> (exn + pyval)" where
  "first_stream_loop [] cur_content = ([], Inr cur_content)"
| "first_stream_loop (r # rs) cur_content =
     (case getitem r ''result'' of
        Inl e \<Rightarrow> ([], Inl e)
      | Inr v \<Rightarrow>
         (case py_iadd cur_content v of
            Inl e \<Rightarrow> ([], Inl e)
          | Inr cur' \<Rightarrow>
             (case first_stream_loop rs cur' of (ys, out) \<Rightarrow> (r # ys, out))))"

text \<open>
  \<^verbatim>\<open>for r in resp: cur_content += r["result"]; is_truncated = r["is_truncated"];
  yield r\<close> (lines 372-377).
\<close>

fun next_stream_loop ::
  "QfResponse list \<Rightarrow> pyval \<Rightarrow> pyval \<Rightarrow> QfResponse list \<times> (exn + pyval \<times> pyval)" where
  "next_stream_loop [] cur_content is_truncated = ([], Inr (cur_content, is_truncated))"
| "next_stream_loop (r # rs) cur_content is_truncated =
     (case getitem r ''result'' of
        Inl e \<Rightarrow> ([], Inl e)
      | Inr v \<Rightarrow>
         (case py_iadd cur_content v of
            Inl e \<Rightarrow> ([], Inl e)
          | Inr cur' \<Rightarrow>
             (case getitem r ''is_truncated'' of
                Inl e \<Rightarrow> ([], Inl e)
              | Inr t \<Rightarrow>
                 (case next_stream_loop rs cur' t of (ys, out) \<Rightarrow> (r # ys, out)))))"

text \<open>
  The two execution regimes: \<^verbatim>\<open>do\<close> with \<^verbatim>\<open>_stream_concat_truncated\<close> (blocking) and
  \<^verbatim>\<open>ado\<close> with \<^verbatim>\<open>_async_stream_concat_truncated\<close> (suspending at each \<^verbatim>\<open>await\<close>). The
  calls are strictly sequential in both, and the code of the two is the same line by
  line but for one assertion: the asynchronous producer asserts that the reply of a
  continuation call is an iterator (line 546), the blocking one iterates over it at
  once.

  Modelled from the spec: iterating over a reply that is not a stream (blocking
  producer) is the fatal type mismatch of the error taxonomy (c); it is a
  \<^verbatim>\<open>TypeError\<close> here.
\<close>

datatype regime = Blocking | Suspending

definition not_a_stream :: "regime \<Rightarrow> exn" where
  "not_a_stream g = (case g of Blocking \<Rightarrow> TypeError | Suspending \<Rightarrow> AssertionError)"

text \<open>
  One round of \<^verbatim>\<open>while is_truncated:\<close> in the producer (lines 354-377): the appends,
  \<^verbatim>\<open>cur_content = ""\<close>, the streaming call and the loop over its envelopes.
\<close>

definition stream_round ::
  "executor \<Rightarrow> regime \<Rightarrow> params \<Rightarrow> nat \<Rightarrow> pyval \<Rightarrow> pyval \<Rightarrow> state
     \<Rightarrow> QfResponse list \<times> (exn + pyval \<times> pyval) \<times> state" where
  "stream_round ex g p msgs cur_content is_truncated s =
     (let s1 = append_continuation msgs cur_content s;
          (r, s2) = private_do ex p True msgs s1
      in case r of
           Inl e \<Rightarrow> ([], Inl e, s2)
         | Inr (Single _) \<Rightarrow> ([], Inl (not_a_stream g), s2)
         | Inr (Stream rs) \<Rightarrow>
             (case next_stream_loop rs (PStr []) is_truncated of (ys, out) \<Rightarrow> (ys, out, s2)))"

text \<open>
  The rounds of the producer, consumed to the end: \<open>yielded\<close> collects the envelopes
  given to the consumer. \<open>None\<close> is a producer that never ends; \<open>Some (ys, None, s)\<close>
  one that ends after yielding \<open>ys\<close>, \<open>Some (ys, Some e, s)\<close> one that raises \<open>e\<close>
  after yielding \<open>ys\<close>.
\<close>

partial_function (option) stream_rounds ::
  "executor \<Rightarrow> regime \<Rightarrow> params \<Rightarrow> nat \<Rightarrow> pyval \<Rightarrow> pyval \<Rightarrow> QfResponse list \<Rightarrow> state
     \<Rightarrow> (QfResponse list \<times> exn option \<times> state) option" where
  "stream_rounds ex g p msgs cur_content is_truncated yielded s =
     (if truthy is_truncated then
        (case stream_round ex g p msgs cur_content is_truncated s of
           (ys, Inl e, s') \<Rightarrow> Some (yielded @ ys, Some e, s')
         | (ys, Inr (cur', t), s') \<Rightarrow> stream_rounds ex g p msgs cur' t (yielded @ ys) s')
      else Some (yielded, None, s))"

text \<open>
  \<^verbatim>\<open>_stream_concat_truncated(first_resp, messages, ...)\<close>, consumed to the end:
  \<^verbatim>\<open>cur_content = ""\<close>, the loop over the first stream, \<^verbatim>\<open>is_truncated = True\<close>
  (line 352), then the rounds.
\<close>

definition stream_concat_truncated ::
  "executor \<Rightarrow> regime \<Rightarrow> QfResponse list \<Rightarrow> nat \<Rightarrow> params \<Rightarrow> state
     \<Rightarrow> (QfResponse list \<times> exn option \<times> state) option" where
  "stream_concat_truncated ex g first_resp msgs p s =
     (case first_stream_loop first_resp (PStr []) of
        (ys, Inl e) \<Rightarrow> Some (ys, Some e, s)
      | (ys, Inr cur_content) \<Rightarrow> stream_rounds ex g p msgs cur_content (PBool True) ys s)"

section \<open>The dispatch facade\<close>

text \<open>
  \<^verbatim>\<open>get_config()\<close>, the credentials of \<^verbatim>\<open>self._client._auth\<close> and the \<^verbatim>\<open>erniebot\<close>
  package are outside the sources: the two configuration flags and the credentials
  are records, \<^verbatim>\<open>erniebot.ChatCompletion.create\<close> (\<^verbatim>\<open>acreate\<close>) is a parameter that
  takes what the source hands to it (the three module attributes it sets and the
  keyword arguments of the call).
\<close>

record config =
  DISABLE_EB_SDK :: bool
  EB_SDK_INSTALLED :: bool

record auth =
  ak :: string
  sk :: string
  access_token :: string

record eb_request =
  eb_ak :: string
  eb_sk :: string
  eb_access_token :: string
  eb_model :: string
  eb_stream :: bool
  eb_messages :: pyobj
  eb_kwargs :: "(string \<times> pyval) list"

text \<open>\<^verbatim>\<open>str.lower()\<close>, on the ASCII letters (model names are ASCII).\<close>

definition lower_char :: "char \<Rightarrow> char" where
  "lower_char c =
     (let n = (of_char c :: nat) in if 65 \<le> n \<and> n \<le> 90 then char_of (n + 32) else c)"

definition lower :: "string \<Rightarrow> string" where
  "lower s = map lower_char s"

text \<open>
  What \<^verbatim>\<open>do\<close> returns: the alternate backend's result, the executor's reply (a
  response or the raw stream), or the producer made by \<^verbatim>\<open>_stream_concat_truncated\<close>,
  not yet consumed, with its first stream and the address of its \<^verbatim>\<open>messages\<close>.
\<close>

datatype 'eb outcome =
    Delegated 'eb
  | Reply reply
  | Producer "QfResponse list" nat

text \<open>
  The condition of line 240-244:
  \<^verbatim>\<open>not get_config().DISABLE_EB_SDK and get_config().EB_SDK_INSTALLED and
  model in ["ERNIE-Bot-turbo", "ERNIE-Bot"]\<close>.
\<close>

definition eb_selected :: "config \<Rightarrow> string option \<Rightarrow> bool" where
  "eb_selected cfg mdl =
     (\<not> DISABLE_EB_SDK cfg \<and> EB_SDK_INSTALLED cfg \<and>
      (case mdl of None \<Rightarrow> False | Some m \<Rightarrow> m \<in> set [''ERNIE-Bot-turbo'', ''ERNIE-Bot'']))"

text \<open>
  Lines 251-255: \<^verbatim>\<open>if model == "ERNIE-Bot": model = "ernie-bot-3.5"\<close>, then
  \<^verbatim>\<open>model.lower()\<close>.
\<close>

definition eb_model_name :: "string \<Rightarrow> string" where
  "eb_model_name m = lower (if m = ''ERNIE-Bot'' then ''ernie-bot-3.5'' else m)"

text \<open>
  Lines 256-310 of \<^verbatim>\<open>do\<close> (451-506 of \<^verbatim>\<open>ado\<close>), after the alternate-backend branch:
  \<open>messages\<close> is the caller's object, \<open>kw_messages\<close> is \<^verbatim>\<open>kwargs["messages"]\<close>.
\<close>

definition do_native ::
  "executor \<Rightarrow> nat \<Rightarrow> nat \<Rightarrow> params \<Rightarrow> bool \<Rightarrow> bool \<Rightarrow> state
     \<Rightarrow> ((exn + 'eb outcome) \<times> state) option" where
  "do_native ex messages kw_messages p strm auto_concat_truncate s =
     (case private_do ex p strm kw_messages s of
        (Inl e, s1) \<Rightarrow> Some (Inl e, s1)
      | (Inr resp, s1) \<Rightarrow>
          if \<not> auto_concat_truncate then Some (Inr (Reply resp), s1)
          else if strm then
            (case resp of
               Single _ \<Rightarrow> Some (Inl AssertionError, s1)
             | Stream rs \<Rightarrow> Some (Inr (Producer rs kw_messages), s1))
          else
            (case resp of
               Stream _ \<Rightarrow> Some (Inl AssertionError, s1)
             | Single r \<Rightarrow>
                (case getitem r ''result'' of
                   Inl e \<Rightarrow> Some (Inl e, s1)
                 | Inr cur_content \<Rightarrow>
                    (case getitem r ''is_truncated'' of
                       Inl e \<Rightarrow> Some (Inl e, s1)
                     | Inr is_truncated \<Rightarrow>
                        (case deepcopy messages s1 of
                           (msgs, s2) \<Rightarrow>
                             (case concat_loop ex p msgs cur_content cur_content is_truncated r s2 of
                                None \<Rightarrow> None
                              | Some (Inl e, s3) \<Rightarrow> Some (Inl e, s3)
                              | Some (Inr r', s3) \<Rightarrow> Some (Inr (Reply (Single r')), s3)))))))"

text \<open>
  \<^verbatim>\<open>do\<close> and \<^verbatim>\<open>ado\<close>: the normalisation of \<^verbatim>\<open>messages\<close> into
  \<^verbatim>\<open>kwargs["messages"]\<close> (lines 236-239, 431-434), the alternate backend (lines
  240-255, 435-450), then the rest. One definition stands for both: \<^verbatim>\<open>ado\<close> has the
  lines of \<^verbatim>\<open>do\<close> with \<^verbatim>\<open>await\<close> before its calls (its loop passes \<^verbatim>\<open>stream\<close>, which
  is false there, where \<^verbatim>\<open>do\<close> passes \<^verbatim>\<open>False\<close>), and the regime only matters once
  the producer is consumed. \<open>None\<close> is a call that never returns.
\<close>

definition do ::
  "config \<Rightarrow> auth \<Rightarrow> (eb_request \<Rightarrow> 'eb) \<Rightarrow> executor \<Rightarrow> nat \<Rightarrow> params \<Rightarrow> bool \<Rightarrow> bool \<Rightarrow> state
     \<Rightarrow> ((exn + 'eb outcome) \<times> state) option" where
  "do cfg au eb ex messages p strm auto_concat_truncate s =
     (case (case cells s messages of
              QfMessagesObj ms \<Rightarrow> to_list ms s
            | PyList _ \<Rightarrow> (messages, s)) of
        (kw_messages, s0) \<Rightarrow>
          (case (if eb_selected cfg (model p) then model p else None) of
             Some m \<Rightarrow>
               Some (Inr (Delegated (eb
                 \<lparr>eb_ak = ak au, eb_sk = sk au, eb_access_token = access_token au,
                  eb_model = eb_model_name m, eb_stream = strm,
                  eb_messages = cells s0 kw_messages, eb_kwargs = kwargs p\<rparr>)), s0)
           | None \<Rightarrow> do_native ex messages kw_messages p strm auto_concat_truncate s0))"

section \<open>Notions used to state the properties\<close>

text \<open>
  An executor that gives the replies \<open>rs\<close>, in order, to the calls number \<open>k\<close>,
  \<open>k + 1\<close>, ..., whatever the requests are.
\<close>

definition answers :: "executor \<Rightarrow> nat \<Rightarrow> reply list \<Rightarrow> bool" where
  "answers ex k rs = (\<forall>i<length rs. \<forall>req. ex (k + i) req = Inr (rs ! i))"

text \<open>The executor that reads its replies from a list, and fails once the list is used up.\<close>

definition scripted :: "reply list \<Rightarrow> executor" where
  "scripted rs = (\<lambda>i req. if i < length rs then Inr (rs ! i) else Inl (ExecutorError 0))"

text \<open>The text fragment of an envelope: its \<^verbatim>\<open>result\<close> when that is a string.\<close>

definition result_text :: "QfResponse \<Rightarrow> string" where
  "result_text r = (case body r ''result'' of Some (PStr f) \<Rightarrow> f | _ \<Rightarrow> [])"

text \<open>The entries of a messages object, read as plain records.\<close>

definition records_of :: "pyobj \<Rightarrow> msg list" where
  "records_of obj = (case obj of PyList xs \<Rightarrow> xs | QfMessagesObj ms \<Rightarrow> map to_dict ms)"

text \<open>
  The state of \<^verbatim>\<open>do\<close> when it enters its loop: the first request is logged and the deep
  copy of \<^verbatim>\<open>messages\<close> is made.
\<close>

definition after_first :: "params \<Rightarrow> nat \<Rightarrow> nat \<Rightarrow> state \<Rightarrow> state" where
  "after_first p a kw s =
     snd (deepcopy a (s\<lparr>sent := sent s @ [\<lparr>req_params = p, req_stream = False, req_messages = cells s kw\<rparr>]\<rparr>))"

text \<open>
  Concrete inputs: the defaults of \<^verbatim>\<open>do\<close>, an envelope with the two fields the
  continuation code reads, the one-message conversation "hi" as a raw record list and
  as a \<^verbatim>\<open>QfMessages\<close> buffer at address 0.
\<close>

definition default_params :: params where
  "default_params =
     \<lparr>model = None, endpoint = None, retry_count = 1, request_timeout = 60,
      backoff_factor = 0, kwargs = []\<rparr>"

definition native_config :: config where
  "native_config = \<lparr>DISABLE_EB_SDK = True, EB_SDK_INSTALLED = False\<rparr>"

definition some_auth :: auth where
  "some_auth = \<lparr>ak = ''ak'', sk = ''sk'', access_token = ''token''\<rparr>"

definition envelope :: "string \<Rightarrow> bool \<Rightarrow> QfResponse" where
  "envelope f t = \<lparr>body = [''result'' \<mapsto> PStr f, ''is_truncated'' \<mapsto> PBool t]\<rparr>"

definition hi :: msg where
  "hi = \<lparr>content = PStr ''hi'', role = ''user''\<rparr>"

definition list_store :: state where
  "list_store = \<lparr>cells = (\<lambda>_. PyList [])(0 := PyList [hi]), fresh = 1, sent = []\<rparr>"

definition buffer_store :: state where
  "buffer_store =
     \<lparr>cells = (\<lambda>_. PyList [])(0 := QfMessagesObj [\<lparr>qf_role = User, qf_content = PStr ''hi''\<rparr>]),
      fresh = 1, sent = []\<rparr>"

text \<open>A configuration that selects the alternate backend.\<close>

definition eb_config :: config where
  "eb_config = \<lparr>DISABLE_EB_SDK = False, EB_SDK_INSTALLED = True\<rparr>"

text \<open>
  From call number \<open>k\<close> on, every answer of the executor is a single envelope with a
  string \<^verbatim>\<open>result\<close> and a true \<^verbatim>\<open>is_truncated\<close>.
\<close>

definition always_truncated :: "executor \<Rightarrow> nat \<Rightarrow> bool" where
  "always_truncated ex k =
     (\<forall>i req. \<exists>e f t. ex (k + i) req = Inr (Single e) \<and> body e ''result'' = Some (PStr f)
        \<and> body e ''is_truncated'' = Some t \<and> truthy t)"

text \<open>
  Executors for the examples: one that reports truncation on its first \<open>n\<close> answers
  and not after, one that reports it on every answer.
\<close>

definition truncating :: "nat \<Rightarrow> executor" where
  "truncating n = (\<lambda>i req. Inr (Single (envelope ''x'' (i < n))))"

definition always_truncating :: executor where
  "always_truncating = (\<lambda>i req. Inr (Single (envelope ''x'' True)))"

text \<open>
  An executor for a streaming call: one envelope that reports no truncation, and a
  second stream should a further call be made. The records of the continuation.
\<close>

definition two_streams :: executor where
  "two_streams = scripted [Stream [envelope ''ab'' False], Stream [envelope ''cd'' False]]"

definition assistant_ab :: msg where
  "assistant_ab = \<lparr>content = PStr ''ab'', role = ''assistant''\<rparr>"

definition user_continue :: msg where
  "user_continue = \<lparr>content = PStr continue_prompt, role = ''user''\<rparr>"

text \<open>
  The two records a continuation round appends, for the fragment \<open>f\<close>: the assistant's
  message with the fragment, then the user's request to continue.
\<close>

definition continuation_pair :: "pyval \<Rightarrow> msg list" where
  "continuation_pair f =
     [\<lparr>content = f, role = ''assistant''\<rparr>, \<lparr>content = PStr continue_prompt, role = ''user''\<rparr>]"

text \<open>
  The contents of the working buffer at the successive requests of one call, from the
  buffer \<open>b\<close> of the first request and the fragments of the rounds.
\<close>

fun buffers :: "msg list \<Rightarrow> pyval list \<Rightarrow> msg list list" where
  "buffers b [] = [b]"
| "buffers b (f # fs) = b # buffers (b @ continuation_pair f) fs"

text \<open>The envelopes of a reply, and the fragment a reply contributes.\<close>

fun envelopes_of :: "reply \<Rightarrow> QfResponse list" where
  "envelopes_of (Single r) = [r]"
| "envelopes_of (Stream rs) = rs"

definition fragment_of :: "reply \<Rightarrow> pyval" where
  "fragment_of r = PStr (concat (map result_text (envelopes_of r)))"

text \<open>Well-formed envelopes: a string \<^verbatim>\<open>result\<close>, an \<^verbatim>\<open>is_truncated\<close> entry.\<close>

definition has_text :: "QfResponse \<Rightarrow> bool" where
  "has_text r = (case body r ''result'' of Some (PStr _) \<Rightarrow> True | _ \<Rightarrow> False)"

definition has_flag :: "QfResponse \<Rightarrow> bool" where
  "has_flag r = (case body r ''is_truncated'' of Some _ \<Rightarrow> True | None \<Rightarrow> False)"

definition flag_of :: "QfResponse \<Rightarrow> pyval" where
  "flag_of r = (case body r ''is_truncated'' of Some v \<Rightarrow> v | None \<Rightarrow> PNone)"

text \<open>
  The replies of a call that runs to its end. Non-streaming: single well-formed
  envelopes, truncated ones and then a final one that is not. Streaming: a first
  stream (its flags are not read), then streams after which the last flag seen is
  true, then a final stream that ends with a flag that is not.
\<close>

fun going_single :: "reply \<Rightarrow> bool" where
  "going_single (Single r) = (has_text r \<and> has_flag r \<and> truthy (flag_of r))"
| "going_single (Stream _) = False"

fun final_single :: "reply \<Rightarrow> bool" where
  "final_single (Single r) = (has_text r \<and> has_flag r \<and> \<not> truthy (flag_of r))"
| "final_single (Stream _) = False"

fun first_stream :: "reply \<Rightarrow> bool" where
  "first_stream (Stream rs) = list_all has_text rs"
| "first_stream (Single _) = False"

fun going_stream :: "reply \<Rightarrow> bool" where
  "going_stream (Stream rs) =
     (list_all has_text rs \<and> list_all has_flag rs \<and> (rs = [] \<or> truthy (flag_of (last rs))))"
| "going_stream (Single _) = False"

fun final_stream :: "reply \<Rightarrow> bool" where
  "final_stream (Stream rs) =
     (list_all has_text rs \<and> list_all has_flag rs \<and> rs \<noteq> [] \<and> \<not> truthy (flag_of (last rs)))"
| "final_stream (Single _) = False"

fun script_ok :: "bool \<Rightarrow> reply list \<Rightarrow> reply \<Rightarrow> bool" where
  "script_ok False reps fin = (list_all going_single reps \<and> final_single fin)"
| "script_ok True reps fin =
     (case reps of
        [] \<Rightarrow> False
      | r # conts \<Rightarrow> first_stream r \<and> list_all going_stream conts \<and> final_stream fin)"

text \<open>Executors for a call whose first reply reports truncation and whose second does not.\<close>

definition truncated_streams :: executor where
  "truncated_streams = scripted [Stream [envelope ''ab'' True], Stream [envelope ''cd'' False]]"

definition truncated_singles :: executor where
  "truncated_singles = scripted [Single (envelope ''ab'' True), Single (envelope ''cd'' False)]"

section \<open>Basic facts\<close>

lemma answers_scripted: "answers (scripted rs) 0 rs"
  by (simp add: answers_def scripted_def)

lemma body_envelope [simp]:
  "body (envelope f t) ''result'' = Some (PStr f)"
  "body (envelope f t) ''is_truncated'' = Some (PBool t)"
  by (simp_all add: envelope_def)

lemma result_text_envelope [simp]: "result_text (envelope f t) = f"
  by (simp add: result_text_def)

lemma native_config_not_selected [simp]: "\<not> eb_selected native_config m"
  by (simp add: eb_selected_def native_config_def)

lemma sent_list_store [simp]: "sent list_store = []"
  by (simp add: list_store_def)

lemma answers_Nil [simp]: "answers ex k []"
  by (simp add: answers_def)

lemma answers_Cons:
  "answers ex k (r # rs) \<longleftrightarrow> (\<forall>req. ex k req = Inr r) \<and> answers ex (Suc k) rs"
proof
  assume a: "answers ex k (r # rs)"
  have "\<forall>req. ex k req = Inr r" using a by (auto simp: answers_def)
  moreover have "answers ex (Suc k) rs"
    unfolding answers_def
  proof (intro allI impI)
    fix i req assume "i < length rs"
    then have "ex (k + Suc i) req = Inr ((r # rs) ! Suc i)"
      using a unfolding answers_def by (metis Suc_less_eq length_Cons)
    then show "ex (Suc k + i) req = Inr (rs ! i)" by simp
  qed
  ultimately show "(\<forall>req. ex k req = Inr r) \<and> answers ex (Suc k) rs" by simp
next
  assume b: "(\<forall>req. ex k req = Inr r) \<and> answers ex (Suc k) rs"
  show "answers ex k (r # rs)"
    unfolding answers_def
  proof (intro allI impI)
    fix i req assume i: "i < length (r # rs)"
    show "ex (k + i) req = Inr ((r # rs) ! i)"
    proof (cases i)
      case 0 then show ?thesis using b by simp
    next
      case (Suc j)
      then have "j < length rs" using i by simp
      then have "ex (Suc k + j) req = Inr (rs ! j)" using b by (simp add: answers_def)
      then show ?thesis using Suc by simp
    qed
  qed
qed

lemma sent_append_continuation [simp]: "sent (append_continuation a c s) = sent s"
  by (simp add: append_continuation_def split: pyobj.splits)

lemma fresh_append_continuation [simp]: "fresh (append_continuation a c s) = fresh s"
  by (simp add: append_continuation_def split: pyobj.splits)

section \<open>The reply assembled by the non-streaming loop\<close>

lemma continuation_round_Single:
  assumes "\<forall>req. ex (length (sent s)) req = Inr (Single r)"
    and "body r ''result'' = Some (PStr f)"
    and "body r ''is_truncated'' = Some t"
  shows "\<exists>s'. continuation_round ex p msgs cur (PStr acc) s = (Inr (PStr f, PStr (acc @ f), t, r), s')
           \<and> length (sent s') = Suc (length (sent s))"
  using assms by (simp add: continuation_round_def private_do_def Let_def getitem_def)

lemma concat_loop_script:
  assumes "answers ex (length (sent s)) (map Single (ts @ [e]))"
    and "\<forall>t\<in>set (ts @ [e]). \<exists>f. body t ''result'' = Some (PStr f)"
    and "\<forall>t\<in>set ts. body t ''is_truncated'' = Some (PBool True)"
    and "body e ''is_truncated'' = Some (PBool False)"
    and "truthy tr"
  shows "\<exists>s'. concat_loop ex p msgs cur (PStr acc) tr resp s
            = Some (Inr (set_result e (PStr (acc @ concat (map result_text (ts @ [e]))))), s')
          \<and> length (sent s') = length (sent s) + length ts + 1"
  using assms
proof (induction ts arbitrary: s cur acc tr resp)
  case Nil
  from Nil.prems(2) obtain f where f: "body e ''result'' = Some (PStr f)" by auto
  from Nil.prems(1) have ex: "\<forall>req. ex (length (sent s)) req = Inr (Single e)"
    by (simp add: answers_Cons)
  from continuation_round_Single [where ex=ex and s=s, OF ex f Nil.prems(4)]
  obtain s' where s': "continuation_round ex p msgs cur (PStr acc) s = (Inr (PStr f, PStr (acc @ f), PBool False, e), s')"
    "length (sent s') = Suc (length (sent s))" by blast
  have "result_text e = f" using f by (simp add: result_text_def)
  then show ?case using s' Nil.prems(5)
    by (subst concat_loop.simps) simp
next
  case (Cons t ts)
  from Cons.prems(2) obtain f where f: "body t ''result'' = Some (PStr f)" by auto
  from Cons.prems(3) have tt: "body t ''is_truncated'' = Some (PBool True)" by simp
  from Cons.prems(1) have ex: "\<forall>req. ex (length (sent s)) req = Inr (Single t)"
    and rest: "answers ex (Suc (length (sent s))) (map Single (ts @ [e]))"
    by (simp_all add: answers_Cons)
  from continuation_round_Single [where ex=ex and s=s, OF ex f tt]
  obtain s' where s': "continuation_round ex p msgs cur (PStr acc) s = (Inr (PStr f, PStr (acc @ f), PBool True, t), s')"
    "length (sent s') = Suc (length (sent s))" by blast
  have rest': "answers ex (length (sent s')) (map Single (ts @ [e]))" using rest s'(2) by simp
  have p2: "\<forall>t\<in>set (ts @ [e]). \<exists>f. body t ''result'' = Some (PStr f)" using Cons.prems(2) by simp
  have p3: "\<forall>t\<in>set ts. body t ''is_truncated'' = Some (PBool True)" using Cons.prems(3) by simp
  have tr: "truthy (PBool True)" by simp
  from Cons.IH [OF rest' p2 p3 Cons.prems(4) tr, of "PStr f" "acc @ f" t]
  obtain s'' where s'': "concat_loop ex p msgs (PStr f) (PStr (acc @ f)) (PBool True) t s'
            = Some (Inr (set_result e (PStr ((acc @ f) @ concat (map result_text (ts @ [e]))))), s'')"
       "length (sent s'') = length (sent s') + length ts + 1" by blast
  have "result_text t = f" using f by (simp add: result_text_def)
  then show ?case using s' s'' Cons.prems(5)
    by (subst concat_loop.simps) simp
qed


lemma do_not_selected:
  assumes "\<not> eb_selected cfg (model p)"
  shows "do cfg au eb ex a p strm auto s =
     (case cells s a of
        QfMessagesObj ms \<Rightarrow> do_native ex a (fresh s) p strm auto (snd (to_list ms s))
      | PyList xs \<Rightarrow> do_native ex a a p strm auto s)"
  using assms by (simp add: do_def to_list_def alloc_def split: pyobj.splits)

lemma sent_to_list [simp]: "sent (snd (to_list ms s)) = sent s"
  by (simp add: to_list_def alloc_def)

lemma sent_after_first [simp]:
  "sent (after_first p a kw s) = sent s @ [\<lparr>req_params = p, req_stream = False, req_messages = cells s kw\<rparr>]"
  by (simp add: after_first_def deepcopy_def alloc_def)

lemma do_native_first_response:
  assumes "\<forall>req. ex (length (sent s)) req = Inr (Single r)"
    and "body r ''result'' = Some v"
    and "body r ''is_truncated'' = Some t"
  shows "(do_native ex a kw p False True s :: ((exn + 'eb outcome) \<times> state) option) =
       (case concat_loop ex p (fresh s) v v t r (after_first p a kw s) of
          None \<Rightarrow> None
        | Some (Inl e, s3) \<Rightarrow> Some (Inl e, s3)
        | Some (Inr r', s3) \<Rightarrow> Some (Inr (Reply (Single r')), s3))"
  using assms
  by (simp add: do_native_def private_do_def Let_def getitem_def deepcopy_def alloc_def after_first_def)

lemma set_result_same: "body r ''result'' = Some v \<Longrightarrow> set_result r v = r"
  by (simp add: set_result_def fun_upd_idem)

lemma do_native_concatenates:
  assumes "answers ex (length (sent s)) (map Single (ts @ [e]))"
    and "\<forall>t\<in>set (ts @ [e]). \<exists>f. body t ''result'' = Some (PStr f)"
    and "\<forall>t\<in>set ts. body t ''is_truncated'' = Some (PBool True)"
    and "body e ''is_truncated'' = Some (PBool False)"
  shows "\<exists>s'. (do_native ex a kw p False True s :: ((exn + 'eb outcome) \<times> state) option)
            = Some (Inr (Reply (Single (set_result e (PStr (concat (map result_text (ts @ [e]))))))), s')
          \<and> length (sent s') = length (sent s) + length ts + 1"
proof (cases ts)
  case Nil
  from assms(2) obtain f where f: "body e ''result'' = Some (PStr f)" by auto
  from assms(1) Nil have ex: "\<forall>req. ex (length (sent s)) req = Inr (Single e)"
    by (simp add: answers_Cons)
  define s2 where "s2 = after_first p a kw s"
  from do_native_first_response [where ex=ex and s=s, OF ex f assms(4), of a kw p]
  have s2: "(do_native ex a kw p False True s :: ((exn + 'eb outcome) \<times> state) option) =
       (case concat_loop ex p (fresh s) (PStr f) (PStr f) (PBool False) e s2 of
          None \<Rightarrow> None
        | Some (Inl e, s3) \<Rightarrow> Some (Inl e, s3)
        | Some (Inr r', s3) \<Rightarrow> Some (Inr (Reply (Single r')), s3))" by (simp add: s2_def)
  have l: "concat_loop ex p (fresh s) (PStr f) (PStr f) (PBool False) e s2 = Some (Inr e, s2)"
    by (subst concat_loop.simps) simp
  have "result_text e = f" using f by (simp add: result_text_def)
  moreover have "length (sent s2) = Suc (length (sent s))" by (simp add: s2_def)
  ultimately show ?thesis using s2 l Nil f by (simp add: set_result_same)
next
  case (Cons t ts')
  from assms(2) Cons obtain f where f: "body t ''result'' = Some (PStr f)" by auto
  from assms(3) Cons have tt: "body t ''is_truncated'' = Some (PBool True)" by simp
  from assms(1) Cons have ex: "\<forall>req. ex (length (sent s)) req = Inr (Single t)"
    and rest: "answers ex (Suc (length (sent s))) (map Single (ts' @ [e]))"
    by (simp_all add: answers_Cons)
  define s2 where "s2 = after_first p a kw s"
  from do_native_first_response [where ex=ex and s=s, OF ex f tt, of a kw p]
  have s2: "(do_native ex a kw p False True s :: ((exn + 'eb outcome) \<times> state) option) =
       (case concat_loop ex p (fresh s) (PStr f) (PStr f) (PBool True) t s2 of
          None \<Rightarrow> None
        | Some (Inl e, s3) \<Rightarrow> Some (Inl e, s3)
        | Some (Inr r', s3) \<Rightarrow> Some (Inr (Reply (Single r')), s3))" by (simp add: s2_def)
  have rest': "answers ex (length (sent s2)) (map Single (ts' @ [e]))" using rest by (simp add: s2_def)
  have p2: "\<forall>t\<in>set (ts' @ [e]). \<exists>f. body t ''result'' = Some (PStr f)" using assms(2) Cons by simp
  have p3: "\<forall>t\<in>set ts'. body t ''is_truncated'' = Some (PBool True)" using assms(3) Cons by simp
  have tr: "truthy (PBool True)" by simp
  from concat_loop_script [OF rest' p2 p3 assms(4) tr, of p "fresh s" "PStr f" f t]
  obtain s' where s': "concat_loop ex p (fresh s) (PStr f) (PStr f) (PBool True) t s2
            = Some (Inr (set_result e (PStr (f @ concat (map result_text (ts' @ [e]))))), s')"
     "length (sent s') = length (sent s2) + length ts' + 1" by blast
  have "result_text t = f" using f by (simp add: result_text_def)
  then show ?thesis using s2 s' Cons by (simp add: s2_def)
qed

lemma do_script_result:
  assumes "\<not> eb_selected cfg (model p)"
    and "answers ex (length (sent s)) (map Single (ts @ [e]))"
    and "\<forall>t\<in>set (ts @ [e]). \<exists>f. body t ''result'' = Some (PStr f)"
    and "\<forall>t\<in>set ts. body t ''is_truncated'' = Some (PBool True)"
    and "body e ''is_truncated'' = Some (PBool False)"
  shows "\<exists>r s'. do cfg au eb ex a p False True s = Some (Inr (Reply (Single r)), s')
          \<and> r = set_result e (PStr (concat (map result_text (ts @ [e]))))
          \<and> body r ''result'' = Some (PStr (concat (map result_text (ts @ [e]))))
          \<and> body r ''is_truncated'' = Some (PBool False)
          \<and> length (sent s') = length (sent s) + length ts + 1"
proof (cases "cells s a")
  case (PyList xs)
  from do_native_concatenates [OF assms(2-5), of a a p]
  show ?thesis using PyList assms(5) by (auto simp: do_not_selected [OF assms(1)] set_result_def)
next
  case (QfMessagesObj ms)
  have "answers ex (length (sent (snd (to_list ms s)))) (map Single (ts @ [e]))"
    using assms(2) by simp
  from do_native_concatenates [OF this assms(3-5), of a "fresh s" p]
  show ?thesis using QfMessagesObj assms(5) by (auto simp: do_not_selected [OF assms(1)] set_result_def)
qed

text \<open>
  C1. A non-streaming call with \<^verbatim>\<open>auto_concat_truncate=True\<close> on the native path: when
  the executor answers with the envelopes \<open>ts @ [e]\<close>, all of \<open>ts\<close> reporting
  \<^verbatim>\<open>is_truncated\<close> true and \<open>e\<close> reporting it false, \<^verbatim>\<open>do\<close> returns one envelope, \<open>e\<close>
  with its \<^verbatim>\<open>body["result"]\<close> set to the concatenation, in call order, of the \<^verbatim>\<open>result\<close>
  fragments of all of them; its \<^verbatim>\<open>is_truncated\<close> is false, and exactly one call per
  envelope was made.
\<close>

theorem do_concatenates_truncated:
  assumes "\<not> eb_selected cfg (model p)"
    and "answers ex (length (sent s)) (map Single (ts @ [e]))"
    and "\<forall>t\<in>set (ts @ [e]). \<exists>f. body t ''result'' = Some (PStr f)"
    and "\<forall>t\<in>set ts. body t ''is_truncated'' = Some (PBool True)"
    and "body e ''is_truncated'' = Some (PBool False)"
  shows "\<exists>r s'. do cfg au eb ex a p False True s = Some (Inr (Reply (Single r)), s')
          \<and> r = set_result e (PStr (concat (map result_text (ts @ [e]))))
          \<and> body r ''result'' = Some (PStr (concat (map result_text (ts @ [e]))))
          \<and> body r ''is_truncated'' = Some (PBool False)
          \<and> length (sent s') = length (sent s) + length ts + 1"
  using do_script_result [OF assms] .

theorem do_concatenates_truncated_witness:
  "\<exists>r s'. do native_config some_auth (\<lambda>_. ())
       (scripted [Single (envelope ''ab'' True), Single (envelope ''cd'' False)])
       0 default_params False True list_store = Some (Inr (Reply (Single r)), s')
     \<and> body r ''result'' = Some (PStr ''abcd'')
     \<and> body r ''is_truncated'' = Some (PBool False)
     \<and> length (sent s') = 2"
proof -
  let ?ex = "scripted [Single (envelope ''ab'' True), Single (envelope ''cd'' False)]"
  have h1: "\<not> eb_selected native_config (model default_params)" by simp
  have h2: "answers ?ex (length (sent list_store)) (map Single ([envelope ''ab'' True] @ [envelope ''cd'' False]))"
    using answers_scripted [of "[Single (envelope ''ab'' True), Single (envelope ''cd'' False)]"] by simp
  have h3: "\<forall>t\<in>set ([envelope ''ab'' True] @ [envelope ''cd'' False]). \<exists>f. body t ''result'' = Some (PStr f)"
    by simp
  have h4: "\<forall>t\<in>set [envelope ''ab'' True]. body t ''is_truncated'' = Some (PBool True)" by simp
  have h5: "body (envelope ''cd'' False) ''is_truncated'' = Some (PBool False)" by simp
  from do_concatenates_truncated [OF h1 h2 h3 h4 h5, of some_auth "\<lambda>_. ()" 0]
  show ?thesis by (auto simp: numeral_2_eq_2)
qed

lemma concat_loop_not_truncated:
  "\<not> truthy t \<Longrightarrow> concat_loop ex p msgs cur entire t resp s = Some (Inr resp, s)"
  by (subst concat_loop.simps) simp

text \<open>
  C7. A non-streaming call with \<^verbatim>\<open>auto_concat_truncate=True\<close> on the native path whose
  first response has \<^verbatim>\<open>is_truncated\<close> false returns that response itself, body
  included, and the only request made is the first one.
\<close>

theorem do_returns_untruncated_unchanged:
  assumes "\<not> eb_selected cfg (model p)"
    and "ex (length (sent s)) \<lparr>req_params = p, req_stream = False,
                               req_messages = PyList (records_of (cells s a))\<rparr> = Inr (Single e)"
    and "body e ''result'' = Some v"
    and "body e ''is_truncated'' = Some (PBool False)"
  shows "\<exists>s'. do cfg au eb ex a p False True s = Some (Inr (Reply (Single e)), s')
          \<and> sent s' = sent s @ [\<lparr>req_params = p, req_stream = False,
                                  req_messages = PyList (records_of (cells s a))\<rparr>]"
proof (cases "cells s a")
  case (PyList xs)
  then show ?thesis using assms
    by (simp add: do_def do_native_def private_do_def Let_def getitem_def deepcopy_def
        alloc_def records_of_def concat_loop_not_truncated)
next
  case (QfMessagesObj ms)
  then show ?thesis using assms
    by (simp add: do_def do_native_def private_do_def Let_def getitem_def deepcopy_def
        to_list_def alloc_def records_of_def concat_loop_not_truncated)
qed

theorem do_returns_untruncated_unchanged_witness:
  "\<exists>s'. do native_config some_auth (\<lambda>_. ()) (scripted [Single (envelope ''ab'' False)])
       0 default_params False True buffer_store
     = Some (Inr (Reply (Single (envelope ''ab'' False))), s')
   \<and> sent s' = [\<lparr>req_params = default_params, req_stream = False, req_messages = PyList [hi]\<rparr>]"
proof -
  have h1: "\<not> eb_selected native_config (model default_params)" by simp
  have h2: "scripted [Single (envelope ''ab'' False)] (length (sent buffer_store))
      \<lparr>req_params = default_params, req_stream = False,
       req_messages = PyList (records_of (cells buffer_store 0))\<rparr> = Inr (Single (envelope ''ab'' False))"
    by (simp add: scripted_def buffer_store_def)
  have h3: "body (envelope ''ab'' False) ''result'' = Some (PStr ''ab'')" by simp
  have h4: "body (envelope ''ab'' False) ''is_truncated'' = Some (PBool False)" by simp
  from do_returns_untruncated_unchanged [where ex = "scripted [Single (envelope ''ab'' False)]"
      and s = buffer_store and a = 0 and au = some_auth and eb = "\<lambda>_. ()", OF h1 h2 h3 h4]
  show ?thesis by (simp add: buffer_store_def records_of_def to_dict_def hi_def)
qed

section \<open>The alternate backend\<close>

lemma eb_model_name_ERNIE_Bot: "eb_model_name ''ERNIE-Bot'' = ''ernie-bot-3.5''"
  by code_simp

lemma eb_model_name_ERNIE_Bot_turbo: "eb_model_name ''ERNIE-Bot-turbo'' = ''ernie-bot-turbo''"
  by code_simp

lemma do_native_not_Delegated:
  "do_native ex a kw p strm auto s \<noteq> Some (Inr (Delegated x), s')"
  by (simp add: do_native_def split: prod.splits sum.splits reply.splits option.splits)

lemma do_selected:
  assumes "eb_selected cfg (model p)" and "model p = Some m"
  shows "do cfg au eb ex a p strm auto s =
     Some (Inr (Delegated (eb
       \<lparr>eb_ak = ak au, eb_sk = sk au, eb_access_token = access_token au,
        eb_model = eb_model_name m, eb_stream = strm,
        eb_messages = PyList (records_of (cells s a)), eb_kwargs = kwargs p\<rparr>)),
       (case cells s a of QfMessagesObj ms \<Rightarrow> snd (to_list ms s) | PyList xs \<Rightarrow> s))"
  using assms
  by (cases "cells s a") (simp_all add: do_def to_list_def alloc_def records_of_def)

text \<open>
  C8. \<^verbatim>\<open>do\<close>/\<^verbatim>\<open>ado\<close> hand the call to the alternate backend exactly when
  \<^verbatim>\<open>DISABLE_EB_SDK\<close> is false, \<^verbatim>\<open>EB_SDK_INSTALLED\<close> is true and the model is
  \<^verbatim>\<open>"ERNIE-Bot-turbo"\<close> or \<^verbatim>\<open>"ERNIE-Bot"\<close>. The backend then gets the model name
  \<^verbatim>\<open>"ernie-bot-3.5"\<close> for \<^verbatim>\<open>"ERNIE-Bot"\<close> and \<^verbatim>\<open>"ernie-bot-turbo"\<close> for
  \<^verbatim>\<open>"ERNIE-Bot-turbo"\<close>, with the normalised messages; its result is what is returned,
  whatever \<^verbatim>\<open>auto_concat_truncate\<close> is, and no request goes to the executor.
\<close>

theorem do_delegates_iff:
  "((\<exists>x s'. do cfg au eb ex a p strm auto s = Some (Inr (Delegated x), s'))
      \<longleftrightarrow> (\<not> DISABLE_EB_SDK cfg \<and> EB_SDK_INSTALLED cfg \<and>
           model p \<in> {Some ''ERNIE-Bot-turbo'', Some ''ERNIE-Bot''}))
   \<and> (\<not> DISABLE_EB_SDK cfg \<and> EB_SDK_INSTALLED cfg \<and>
        model p \<in> {Some ''ERNIE-Bot-turbo'', Some ''ERNIE-Bot''}
      \<longrightarrow> (\<exists>s'. do cfg au eb ex a p strm auto s =
             Some (Inr (Delegated (eb
               \<lparr>eb_ak = ak au, eb_sk = sk au, eb_access_token = access_token au,
                eb_model = (if model p = Some ''ERNIE-Bot'' then ''ernie-bot-3.5''
                            else ''ernie-bot-turbo''),
                eb_stream = strm,
                eb_messages = PyList (records_of (cells s a)), eb_kwargs = kwargs p\<rparr>)), s')
            \<and> sent s' = sent s))"
proof -
  let ?C = "\<not> DISABLE_EB_SDK cfg \<and> EB_SDK_INSTALLED cfg \<and>
           model p \<in> {Some ''ERNIE-Bot-turbo'', Some ''ERNIE-Bot''}"
  have sel: "eb_selected cfg (model p) \<longleftrightarrow> ?C"
    by (auto simp: eb_selected_def split: option.splits)
  have neg: "\<not> (\<exists>x s'. do cfg au eb ex a p strm auto s = Some (Inr (Delegated x), s'))" if "\<not> ?C"
  proof -
    from that sel have "\<not> eb_selected cfg (model p)" by blast
    then show ?thesis
      by (simp add: do_not_selected do_native_not_Delegated split: pyobj.splits)
  qed
  have pos: "\<exists>s'. do cfg au eb ex a p strm auto s =
             Some (Inr (Delegated (eb
               \<lparr>eb_ak = ak au, eb_sk = sk au, eb_access_token = access_token au,
                eb_model = (if model p = Some ''ERNIE-Bot'' then ''ernie-bot-3.5''
                            else ''ernie-bot-turbo''),
                eb_stream = strm,
                eb_messages = PyList (records_of (cells s a)), eb_kwargs = kwargs p\<rparr>)), s')
            \<and> sent s' = sent s" if c: "?C"
  proof -
    from c sel have s: "eb_selected cfg (model p)" by blast
    from c consider "model p = Some ''ERNIE-Bot''" | "model p = Some ''ERNIE-Bot-turbo''" by auto
    then show ?thesis
    proof cases
      case 1
      from do_selected [OF s 1, of au eb ex a strm auto s] show ?thesis
        using 1 by (simp add: eb_model_name_ERNIE_Bot split: pyobj.splits)
    next
      case 2
      from do_selected [OF s 2, of au eb ex a strm auto s] show ?thesis
        using 2 by (simp add: eb_model_name_ERNIE_Bot_turbo split: pyobj.splits)
    qed
  qed
  from neg pos show ?thesis by blast
qed

theorem do_delegates_iff_witness:
  "\<exists>s'. do eb_config some_auth (\<lambda>r. r) (scripted []) 0 (default_params\<lparr>model := Some ''ERNIE-Bot''\<rparr>)
      False True list_store
    = Some (Inr (Delegated
        \<lparr>eb_ak = ''ak'', eb_sk = ''sk'', eb_access_token = ''token'',
         eb_model = ''ernie-bot-3.5'', eb_stream = False,
         eb_messages = PyList [hi], eb_kwargs = []\<rparr>), s') \<and> sent s' = []"
  using do_delegates_iff [of eb_config some_auth "\<lambda>r. r" "scripted []" 0
      "default_params\<lparr>model := Some ''ERNIE-Bot''\<rparr>" False True list_store]
  by (simp add: eb_config_def some_auth_def default_params_def list_store_def records_of_def)

section \<open>Termination of the non-streaming loop\<close>

lemma always_truncated_Suc: "always_truncated ex k \<Longrightarrow> always_truncated ex (Suc k)"
  unfolding always_truncated_def
proof (intro allI)
  fix i req
  assume "\<forall>i req. \<exists>e f t. ex (k + i) req = Inr (Single e) \<and> body e ''result'' = Some (PStr f)
        \<and> body e ''is_truncated'' = Some t \<and> truthy t"
  then have "\<exists>e f t. ex (k + Suc i) req = Inr (Single e) \<and> body e ''result'' = Some (PStr f)
        \<and> body e ''is_truncated'' = Some t \<and> truthy t" by blast
  then show "\<exists>e f t. ex (Suc k + i) req = Inr (Single e) \<and> body e ''result'' = Some (PStr f)
        \<and> body e ''is_truncated'' = Some t \<and> truthy t" by simp
qed

lemma continuation_round_truncated:
  assumes "always_truncated ex (length (sent s))"
  shows "\<exists>f t e s'. continuation_round ex p msgs cur (PStr acc) s = (Inr (PStr f, PStr (acc @ f), t, e), s')
           \<and> truthy t \<and> length (sent s') = Suc (length (sent s))"
proof -
  let ?req = "\<lparr>req_params = p, req_stream = False,
               req_messages = cells (append_continuation msgs cur s) msgs\<rparr>"
  from assms obtain e f t where e: "ex (length (sent s) + 0) ?req = Inr (Single e)"
    "body e ''result'' = Some (PStr f)" "body e ''is_truncated'' = Some t" "truthy t"
    unfolding always_truncated_def by blast
  then show ?thesis
    by (simp add: continuation_round_def private_do_def Let_def getitem_def)
qed

lemma concat_loop_Some_not_always_truncated:
  assumes "concat_loop ex p msgs cur entire t resp s = Some y"
  shows "\<not> (truthy t \<and> (\<exists>acc. entire = PStr acc) \<and> always_truncated ex (length (sent s)))"
proof (rule concat_loop.raw_induct
    [where P = "\<lambda>ex p msgs cur entire t resp s y.
       \<not> (truthy t \<and> (\<exists>acc. entire = PStr acc) \<and> always_truncated ex (length (sent s)))",
     OF _ assms], goal_cases)
  case (1 loop ex p msgs cur entire t resp s y)
  show ?case
  proof
    assume inv: "truthy t \<and> (\<exists>acc. entire = PStr acc) \<and> always_truncated ex (length (sent s))"
    then obtain acc where acc: "entire = PStr acc" by blast
    from inv continuation_round_truncated [of ex s p msgs cur acc]
    obtain f t' e s' where r: "continuation_round ex p msgs cur (PStr acc) s = (Inr (PStr f, PStr (acc @ f), t', e), s')"
      "truthy t'" "length (sent s') = Suc (length (sent s))" by blast
    from 1(2) inv acc r have "loop ex p msgs (PStr f) (PStr (acc @ f)) t' e s' = Some y" by simp
    from 1(1) [OF this] r inv always_truncated_Suc [of ex "length (sent s)"]
    show False by simp
  qed
qed

lemma concat_loop_diverges:
  assumes "truthy t" and "always_truncated ex (length (sent s))"
  shows "concat_loop ex p msgs cur (PStr acc) t resp s = None"
proof (cases "concat_loop ex p msgs cur (PStr acc) t resp s")
  case None then show ?thesis .
next
  case (Some y)
  from concat_loop_Some_not_always_truncated [OF Some] assms show ?thesis by simp
qed

lemma always_truncated_from_sequence:
  assumes "\<forall>i req. ex (k + i) req = Inr (Single (rs i))"
    and "\<forall>i. \<exists>f b. body (rs i) ''result'' = Some (PStr f) \<and> body (rs i) ''is_truncated'' = Some (PBool b)"
    and "\<forall>i. body (rs i) ''is_truncated'' = Some (PBool True)"
  shows "always_truncated ex (k + j)"
  unfolding always_truncated_def
proof (intro allI)
  fix i req
  from assms(1) have "ex (k + (j + i)) req = Inr (Single (rs (j + i)))" by blast
  moreover from assms(2) obtain f where "body (rs (j + i)) ''result'' = Some (PStr f)" by blast
  moreover from assms(3) have "body (rs (j + i)) ''is_truncated'' = Some (PBool True)" by blast
  ultimately show "\<exists>e f t. ex (k + j + i) req = Inr (Single e) \<and> body e ''result'' = Some (PStr f)
        \<and> body e ''is_truncated'' = Some t \<and> truthy t"
    by (simp add: add.assoc)
qed

lemma answers_from_sequence:
  assumes "\<forall>i req. ex (k + i) req = Inr (Single (rs i))"
  shows "answers ex k (map Single (map rs [0..<n] @ [rs n]))"
  unfolding answers_def
proof (intro allI impI)
  fix i req assume "i < length (map Single (map rs [0..<n] @ [rs n]))"
  then have i: "i \<le> n" by simp
  have "(map rs [0..<n] @ [rs n]) ! i = rs i"
  proof (cases "i < n")
    case True then show ?thesis by (simp add: nth_append)
  next
    case False with i have "i = n" by simp
    then show ?thesis by (simp add: nth_append)
  qed
  moreover have "i < length (map rs [0..<n] @ [rs n])" using i by simp
  ultimately have "map Single (map rs [0..<n] @ [rs n]) ! i = Single (rs i)"
    by (simp only: nth_map)
  with assms show "ex (k + i) req = Inr (map Single (map rs [0..<n] @ [rs n]) ! i)" by simp
qed

lemma do_diverges:
  assumes ne: "\<not> eb_selected cfg (model p)"
    and ex: "\<forall>i req. ex (length (sent s) + i) req = Inr (Single (rs i))"
    and wf: "\<forall>i. \<exists>f b. body (rs i) ''result'' = Some (PStr f) \<and> body (rs i) ''is_truncated'' = Some (PBool b)"
    and tr: "\<forall>i. body (rs i) ''is_truncated'' = Some (PBool True)"
  shows "do cfg au eb ex a p False True s = None"
proof -
  from wf obtain f where f: "body (rs 0) ''result'' = Some (PStr f)" by blast
  from tr have t: "body (rs 0) ''is_truncated'' = Some (PBool True)" by blast
  from ex have e0: "\<forall>req. ex (length (sent s)) req = Inr (Single (rs 0))"
    by (metis add.right_neutral)
  have at: "always_truncated ex (length (sent s) + 1)"
    by (rule always_truncated_from_sequence [OF ex wf tr])
  have nat: "(do_native ex a kw p False True s' :: ((exn + 'a outcome) \<times> state) option) = None"
    if "sent s' = sent s" for kw s'
  proof -
    from e0 that have e0': "\<forall>req. ex (length (sent s')) req = Inr (Single (rs 0))" by simp
    have "always_truncated ex (length (sent (after_first p a kw s')))" using at that by simp
    then have "concat_loop ex p (fresh s') (PStr f) (PStr f) (PBool True) (rs 0) (after_first p a kw s') = None"
      by (intro concat_loop_diverges) simp_all
    then show ?thesis
      by (simp add: do_native_first_response [where ex=ex and s=s', OF e0' f t])
  qed
  show ?thesis
    by (cases "cells s a") (simp_all add: do_not_selected [OF ne] nat)
qed

lemma do_terminates_after:
  assumes ne: "\<not> eb_selected cfg (model p)"
    and ex: "\<forall>i req. ex (length (sent s) + i) req = Inr (Single (rs i))"
    and wf: "\<forall>i. \<exists>f b. body (rs i) ''result'' = Some (PStr f) \<and> body (rs i) ''is_truncated'' = Some (PBool b)"
    and tr: "\<forall>i<n. body (rs i) ''is_truncated'' = Some (PBool True)"
    and fin: "body (rs n) ''is_truncated'' = Some (PBool False)"
  shows "\<exists>r s'. do cfg au eb ex a p False True s = Some (Inr r, s')
           \<and> length (sent s') = length (sent s) + Suc n"
proof -
  have a: "answers ex (length (sent s)) (map Single (map rs [0..<n] @ [rs n]))"
    by (rule answers_from_sequence [OF ex])
  have b: "\<forall>t\<in>set (map rs [0..<n] @ [rs n]). \<exists>f. body t ''result'' = Some (PStr f)"
    using wf by auto
  have c: "\<forall>t\<in>set (map rs [0..<n]). body t ''is_truncated'' = Some (PBool True)"
    using tr by auto
  from do_script_result [OF ne a b c fin, of au eb a]
  show ?thesis by auto
qed

text \<open>
  C9. The non-streaming loop of \<^verbatim>\<open>do\<close> has no cap on its rounds. Let the executor
  answer call number \<open>i\<close> (counted from this call of \<^verbatim>\<open>do\<close>) with the well-formed
  envelope \<open>rs i\<close>. Then \<^verbatim>\<open>do\<close> never returns exactly when every \<open>rs i\<close> reports
  \<^verbatim>\<open>is_truncated\<close> true; and for every \<open>n\<close>, when \<open>rs 0\<close>, ..., \<open>rs (n - 1)\<close> report true
  and \<open>rs n\<close> reports false, \<^verbatim>\<open>do\<close> returns after exactly \<open>n + 1\<close> calls.
\<close>

theorem do_loop_has_no_round_cap:
  assumes "\<not> eb_selected cfg (model p)"
    and "\<forall>i req. ex (length (sent s) + i) req = Inr (Single (rs i))"
    and "\<forall>i. \<exists>f b. body (rs i) ''result'' = Some (PStr f) \<and> body (rs i) ''is_truncated'' = Some (PBool b)"
  shows "(do cfg au eb ex a p False True s = None
            \<longleftrightarrow> (\<forall>i. body (rs i) ''is_truncated'' = Some (PBool True)))
       \<and> (\<forall>n. (\<forall>i<n. body (rs i) ''is_truncated'' = Some (PBool True))
               \<and> body (rs n) ''is_truncated'' = Some (PBool False)
            \<longrightarrow> (\<exists>r s'. do cfg au eb ex a p False True s = Some (Inr r, s')
                   \<and> length (sent s') = length (sent s) + Suc n))"
proof -
  have A: "do cfg au eb ex a p False True s = None"
    if "\<forall>i. body (rs i) ''is_truncated'' = Some (PBool True)"
    using that by (rule do_diverges [OF assms])
  have B: "\<exists>r s'. do cfg au eb ex a p False True s = Some (Inr r, s')
                   \<and> length (sent s') = length (sent s) + Suc n"
    if "\<forall>i<n. body (rs i) ''is_truncated'' = Some (PBool True)"
      and "body (rs n) ''is_truncated'' = Some (PBool False)" for n
    using do_terminates_after [OF assms that, of au eb a] .
  have C: "\<forall>i. body (rs i) ''is_truncated'' = Some (PBool True)"
    if none: "do cfg au eb ex a p False True s = None"
  proof (rule ccontr)
    assume "\<not> (\<forall>i. body (rs i) ''is_truncated'' = Some (PBool True))"
    then have ex1: "\<exists>i. body (rs i) ''is_truncated'' \<noteq> Some (PBool True)" by blast
    define n where "n = (LEAST i. body (rs i) ''is_truncated'' \<noteq> Some (PBool True))"
    from ex1 have "body (rs n) ''is_truncated'' \<noteq> Some (PBool True)"
      unfolding n_def by (rule LeastI_ex)
    with assms(3) have fin: "body (rs n) ''is_truncated'' = Some (PBool False)"
      by (metis (full_types))
    have tr: "\<forall>i<n. body (rs i) ''is_truncated'' = Some (PBool True)"
      using not_less_Least n_def by blast
    from B [OF tr fin] none show False by auto
  qed
  from A B C show ?thesis by blast
qed

theorem do_loop_has_no_round_cap_witness:
  "do native_config some_auth (\<lambda>_. ()) always_truncating 0 default_params False True list_store = None
   \<and> (\<exists>r s'. do native_config some_auth (\<lambda>_. ()) (truncating 3) 0 default_params False True list_store
          = Some (Inr r, s') \<and> length (sent s') = 4)"
proof -
  have h1: "\<not> eb_selected native_config (model default_params)" by simp
  have a2: "\<forall>i req. always_truncating (length (sent list_store) + i) req
      = Inr (Single (envelope ''x'' True))" by (simp add: always_truncating_def)
  have a3: "\<forall>i::nat. \<exists>f b. body (envelope ''x'' True) ''result'' = Some (PStr f)
      \<and> body (envelope ''x'' True) ''is_truncated'' = Some (PBool b)" by auto
  have b2: "\<forall>i req. truncating 3 (length (sent list_store) + i) req
      = Inr (Single (envelope ''x'' (i < 3)))" by (simp add: truncating_def)
  have b3: "\<forall>i::nat. \<exists>f b. body (envelope ''x'' (i < 3)) ''result'' = Some (PStr f)
      \<and> body (envelope ''x'' (i < 3)) ''is_truncated'' = Some (PBool b)" by auto
  from do_loop_has_no_round_cap [where ex = always_truncating
      and rs = "\<lambda>i. envelope ''x'' True" and s = list_store and au = some_auth
      and eb = "\<lambda>_. ()" and a = 0, OF h1 a2 a3]
  have A: "do native_config some_auth (\<lambda>_. ()) always_truncating
      0 default_params False True list_store = None" by simp
  from do_loop_has_no_round_cap [where ex = "truncating 3"
      and rs = "\<lambda>i. envelope ''x'' (i < 3)" and s = list_store and au = some_auth
      and eb = "\<lambda>_. ()" and a = 0, OF h1 b2 b3]
  have "(\<forall>i<3. body (envelope ''x'' (i < (3::nat))) ''is_truncated'' = Some (PBool True))
               \<and> body (envelope ''x'' ((3::nat) < 3)) ''is_truncated'' = Some (PBool False)
            \<longrightarrow> (\<exists>r s'. do native_config some_auth (\<lambda>_. ())
        (truncating 3) 0 default_params False True list_store
          = Some (Inr r, s') \<and> length (sent s') = length (sent list_store) + Suc 3)"
    by blast
  then have B: "\<exists>r s'. do native_config some_auth (\<lambda>_. ())
        (truncating 3) 0 default_params False True list_store
          = Some (Inr r, s') \<and> length (sent s') = 4" by simp
  from A B show ?thesis by blast
qed

section \<open>Envelopes that lack a field\<close>

lemma continuation_round_missing:
  assumes "\<forall>req. ex (length (sent s)) req = Inr (Single bad)"
    and "body bad ''result'' = None \<or> body bad ''is_truncated'' = None"
  shows "\<exists>e s'. continuation_round ex p msgs cur (PStr acc) s = (Inl e, s')
           \<and> (body bad ''result'' = None \<longrightarrow> e = KeyError ''result'')
           \<and> ((\<exists>f. body bad ''result'' = Some (PStr f)) \<longrightarrow> e = KeyError ''is_truncated'')
           \<and> length (sent s') = Suc (length (sent s))"
proof (cases "body bad ''result''")
  case None
  with assms(1) show ?thesis
    by (simp add: continuation_round_def private_do_def Let_def getitem_def)
next
  case (Some v)
  with assms(2) have t: "body bad ''is_truncated'' = None" by simp
  from Some t assms(1) show ?thesis
    by (cases v) (simp_all add: continuation_round_def private_do_def Let_def getitem_def)
qed

lemma concat_loop_missing:
  assumes "answers ex (length (sent s)) (map Single (ts @ [bad]))"
    and "\<forall>t\<in>set ts. \<exists>f. body t ''result'' = Some (PStr f)"
    and "\<forall>t\<in>set ts. body t ''is_truncated'' = Some (PBool True)"
    and "body bad ''result'' = None \<or> body bad ''is_truncated'' = None"
    and "truthy tr"
  shows "\<exists>e s'. concat_loop ex p msgs cur (PStr acc) tr resp s = Some (Inl e, s')
           \<and> (body bad ''result'' = None \<longrightarrow> e = KeyError ''result'')
           \<and> ((\<exists>f. body bad ''result'' = Some (PStr f)) \<longrightarrow> e = KeyError ''is_truncated'')
           \<and> length (sent s') = length (sent s) + length ts + 1"
  using assms
proof (induction ts arbitrary: s cur acc tr resp)
  case Nil
  from Nil.prems(1) have ex: "\<forall>req. ex (length (sent s)) req = Inr (Single bad)"
    by (simp add: answers_Cons)
  from continuation_round_missing [where ex=ex and s=s, OF ex Nil.prems(4), of p msgs cur acc]
  obtain e s' where "continuation_round ex p msgs cur (PStr acc) s = (Inl e, s')"
    "body bad ''result'' = None \<longrightarrow> e = KeyError ''result''"
    "(\<exists>f. body bad ''result'' = Some (PStr f)) \<longrightarrow> e = KeyError ''is_truncated''"
    "length (sent s') = Suc (length (sent s))" by (elim exE conjE) (erule that; assumption)
  then show ?case using Nil.prems(5)
    by (subst concat_loop.simps) simp
next
  case (Cons t ts)
  from Cons.prems(2) obtain f where f: "body t ''result'' = Some (PStr f)" by auto
  from Cons.prems(3) have tt: "body t ''is_truncated'' = Some (PBool True)" by simp
  from Cons.prems(1) have ex: "\<forall>req. ex (length (sent s)) req = Inr (Single t)"
    and rest: "answers ex (Suc (length (sent s))) (map Single (ts @ [bad]))"
    by (simp_all add: answers_Cons)
  from continuation_round_Single [where ex=ex and s=s, OF ex f tt]
  obtain s' where s': "continuation_round ex p msgs cur (PStr acc) s = (Inr (PStr f, PStr (acc @ f), PBool True, t), s')"
    "length (sent s') = Suc (length (sent s))" by blast
  have rest': "answers ex (length (sent s')) (map Single (ts @ [bad]))" using rest s'(2) by simp
  have p2: "\<forall>t\<in>set ts. \<exists>f. body t ''result'' = Some (PStr f)" using Cons.prems(2) by simp
  have p3: "\<forall>t\<in>set ts. body t ''is_truncated'' = Some (PBool True)" using Cons.prems(3) by simp
  have tr: "truthy (PBool True)" by simp
  from Cons.IH [OF rest' p2 p3 Cons.prems(4) tr, of "PStr f" "acc @ f" t]
  obtain e s'' where "concat_loop ex p msgs (PStr f) (PStr (acc @ f)) (PBool True) t s' = Some (Inl e, s'')"
    "body bad ''result'' = None \<longrightarrow> e = KeyError ''result''"
    "(\<exists>f. body bad ''result'' = Some (PStr f)) \<longrightarrow> e = KeyError ''is_truncated''"
    "length (sent s'') = length (sent s') + length ts + 1" by (elim exE conjE) (erule that; assumption)
  then show ?case using s' Cons.prems(5)
    by (subst concat_loop.simps) simp
qed

lemma do_native_missing_first:
  assumes "\<forall>req. ex (length (sent s)) req = Inr (Single bad)"
    and "body bad ''result'' = None \<or> body bad ''is_truncated'' = None"
  shows "\<exists>e s'. (do_native ex a kw p False True s :: ((exn + 'eb outcome) \<times> state) option) = Some (Inl e, s')
           \<and> (body bad ''result'' = None \<longrightarrow> e = KeyError ''result'')
           \<and> ((\<exists>f. body bad ''result'' = Some (PStr f)) \<longrightarrow> e = KeyError ''is_truncated'')
           \<and> length (sent s') = Suc (length (sent s))"
proof (cases "body bad ''result''")
  case None
  with assms(1) show ?thesis
    by (simp add: do_native_def private_do_def Let_def getitem_def)
next
  case (Some v)
  with assms(2) have t: "body bad ''is_truncated'' = None" by simp
  from Some t assms(1) show ?thesis
    by (simp add: do_native_def private_do_def Let_def getitem_def)
qed

lemma do_native_missing:
  assumes "answers ex (length (sent s)) (map Single (ts @ [bad]))"
    and "\<forall>t\<in>set ts. \<exists>f. body t ''result'' = Some (PStr f)"
    and "\<forall>t\<in>set ts. body t ''is_truncated'' = Some (PBool True)"
    and "body bad ''result'' = None \<or> body bad ''is_truncated'' = None"
  shows "\<exists>e s'. (do_native ex a kw p False True s :: ((exn + 'eb outcome) \<times> state) option) = Some (Inl e, s')
           \<and> (body bad ''result'' = None \<longrightarrow> e = KeyError ''result'')
           \<and> ((\<exists>f. body bad ''result'' = Some (PStr f)) \<longrightarrow> e = KeyError ''is_truncated'')
           \<and> length (sent s') = length (sent s) + length ts + 1"
proof (cases ts)
  case Nil
  from assms(1) Nil have ex: "\<forall>req. ex (length (sent s)) req = Inr (Single bad)"
    by (simp add: answers_Cons)
  from do_native_missing_first [where ex=ex and s=s, OF ex assms(4), of a kw p] Nil
  show ?thesis by simp
next
  case (Cons t ts')
  from assms(2) Cons obtain f where f: "body t ''result'' = Some (PStr f)" by auto
  from assms(3) Cons have tt: "body t ''is_truncated'' = Some (PBool True)" by simp
  from assms(1) Cons have ex: "\<forall>req. ex (length (sent s)) req = Inr (Single t)"
    and rest: "answers ex (Suc (length (sent s))) (map Single (ts' @ [bad]))"
    by (simp_all add: answers_Cons)
  define s2 where "s2 = after_first p a kw s"
  have rest': "answers ex (length (sent s2)) (map Single (ts' @ [bad]))" using rest by (simp add: s2_def)
  have p2: "\<forall>t\<in>set ts'. \<exists>f. body t ''result'' = Some (PStr f)" using assms(2) Cons by simp
  have p3: "\<forall>t\<in>set ts'. body t ''is_truncated'' = Some (PBool True)" using assms(3) Cons by simp
  have tr: "truthy (PBool True)" by simp
  from concat_loop_missing [OF rest' p2 p3 assms(4) tr, of p "fresh s" "PStr f" f t]
  obtain e s' where "concat_loop ex p (fresh s) (PStr f) (PStr f) (PBool True) t s2 = Some (Inl e, s')"
    "body bad ''result'' = None \<longrightarrow> e = KeyError ''result''"
    "(\<exists>f. body bad ''result'' = Some (PStr f)) \<longrightarrow> e = KeyError ''is_truncated''"
    "length (sent s') = length (sent s2) + length ts' + 1" by (elim exE conjE) (erule that; assumption)
  then show ?thesis using Cons
    by (simp add: do_native_first_response [where ex=ex and s=s, OF ex f tt] s2_def)
qed

text \<open>
  C10. A non-streaming call with \<^verbatim>\<open>auto_concat_truncate=True\<close> on the native path: when
  the executor answers with the well-formed truncated envelopes \<open>ts\<close> and then with an
  envelope \<open>bad\<close> that lacks \<^verbatim>\<open>result\<close> or \<^verbatim>\<open>is_truncated\<close> (\<open>bad\<close> is the first
  response when \<open>ts\<close> is empty, a continuation response otherwise), \<^verbatim>\<open>do\<close> raises: a
  \<^verbatim>\<open>KeyError\<close> for \<^verbatim>\<open>result\<close> when that is missing, for \<^verbatim>\<open>is_truncated\<close> when the
  \<^verbatim>\<open>result\<close> is there and a string. No response is returned.
\<close>

theorem do_raises_on_missing_field:
  assumes "\<not> eb_selected cfg (model p)"
    and "answers ex (length (sent s)) (map Single (ts @ [bad]))"
    and "\<forall>t\<in>set ts. \<exists>f. body t ''result'' = Some (PStr f)"
    and "\<forall>t\<in>set ts. body t ''is_truncated'' = Some (PBool True)"
    and "body bad ''result'' = None \<or> body bad ''is_truncated'' = None"
  shows "\<exists>e s'. do cfg au eb ex a p False True s = Some (Inl e, s')
           \<and> (body bad ''result'' = None \<longrightarrow> e = KeyError ''result'')
           \<and> ((\<exists>f. body bad ''result'' = Some (PStr f)) \<longrightarrow> e = KeyError ''is_truncated'')
           \<and> length (sent s') = length (sent s) + length ts + 1"
proof (cases "cells s a")
  case (PyList xs)
  from do_native_missing [OF assms(2-5), of a a p]
  show ?thesis using PyList by (simp add: do_not_selected [OF assms(1)])
next
  case (QfMessagesObj ms)
  have "answers ex (length (sent (snd (to_list ms s)))) (map Single (ts @ [bad]))"
    using assms(2) by simp
  from do_native_missing [OF this assms(3-5), of a "fresh s" p]
  show ?thesis using QfMessagesObj by (simp add: do_not_selected [OF assms(1)])
qed

theorem do_raises_on_missing_field_witness:
  "\<exists>s'. do native_config some_auth (\<lambda>_. ())
       (scripted [Single (envelope ''ab'' True), Single \<lparr>body = [''result'' \<mapsto> PStr ''cd'']\<rparr>])
       0 default_params False True list_store = Some (Inl (KeyError ''is_truncated''), s')"
proof -
  let ?bad = "\<lparr>body = [''result'' \<mapsto> PStr ''cd'']\<rparr>"
  let ?ex = "scripted [Single (envelope ''ab'' True), Single ?bad]"
  have h1: "\<not> eb_selected native_config (model default_params)" by simp
  have h2: "answers ?ex (length (sent list_store)) (map Single ([envelope ''ab'' True] @ [?bad]))"
    using answers_scripted [of "[Single (envelope ''ab'' True), Single ?bad]"] by simp
  have h3: "\<forall>t\<in>set [envelope ''ab'' True]. \<exists>f. body t ''result'' = Some (PStr f)" by simp
  have h4: "\<forall>t\<in>set [envelope ''ab'' True]. body t ''is_truncated'' = Some (PBool True)" by simp
  have h5: "body ?bad ''result'' = None \<or> body ?bad ''is_truncated'' = None" by simp
  from do_raises_on_missing_field [OF h1 h2 h3 h4 h5, of some_auth "\<lambda>_. ()" 0]
  show ?thesis by auto
qed

section \<open>The streaming producer after its first stream\<close>

lemma getitem_envelope [simp]:
  "getitem (envelope f t) ''result'' = Inr (PStr f)"
  "getitem (envelope f t) ''is_truncated'' = Inr (PBool t)"
  by (simp_all add: getitem_def)

lemma stream_rounds_stop:
  "\<not> truthy t \<Longrightarrow> stream_rounds ex g p msgs cur t ys s = Some (ys, None, s)"
  by (subst stream_rounds.simps) simp

lemma stream_rounds_step:
  "truthy t \<Longrightarrow> stream_rounds ex g p msgs cur t yielded s =
     (case stream_round ex g p msgs cur t s of
           (ys, Inl e, s') \<Rightarrow> Some (yielded @ ys, Some e, s')
         | (ys, Inr (cur', t'), s') \<Rightarrow> stream_rounds ex g p msgs cur' t' (yielded @ ys) s')"
  by (subst stream_rounds.simps) simp

text \<open>
  C2 (the code falls short of it). The claim: the producer issues a continuation round
  only when the last \<^verbatim>\<open>is_truncated\<close> seen in the exhausted stream was true. The
  code sets \<^verbatim>\<open>is_truncated = True\<close> once the first stream is exhausted (line 352)
  and never reads the flag of the first stream's envelopes: with "hi" as messages
  and a first stream of one envelope that reports \<^verbatim>\<open>is_truncated\<close> false, the
  producer, in both regimes, appends the assistant's "ab" and the continuation
  request to the messages and makes a second call, whose envelope it yields too.
\<close>

theorem producer_continues_after_untruncated_first_stream:
  "\<forall>g. \<exists>s1 s2.
     do native_config some_auth (\<lambda>_. ()) two_streams 0 default_params True True list_store
       = Some (Inr (Producer [envelope ''ab'' False] 0), s1)
     \<and> stream_concat_truncated two_streams g [envelope ''ab'' False] 0 default_params s1
       = Some ([envelope ''ab'' False, envelope ''cd'' False], None, s2)
     \<and> map req_messages (sent s1) = [PyList [hi]]
     \<and> map req_messages (sent s2) = [PyList [hi], PyList [hi, assistant_ab, user_continue]]"
  by (simp add: do_def do_native_def private_do_def list_store_def two_streams_def scripted_def
      stream_concat_truncated_def stream_rounds_step stream_rounds_stop stream_round_def
      append_continuation_def assistant_ab_def user_continue_def eb_selected_def native_config_def)

section \<open>Scripts of replies: envelopes yielded and requests sent\<close>

lemma has_text_D: "has_text r \<Longrightarrow> body r ''result'' = Some (PStr (result_text r))"
  by (auto simp: has_text_def result_text_def split: option.splits pyval.splits)

lemma has_flag_D: "has_flag r \<Longrightarrow> body r ''is_truncated'' = Some (flag_of r)"
  by (auto simp: has_flag_def flag_of_def split: option.splits)

lemma records_of_append_continuation:
  "records_of (cells (append_continuation a c s) a) = records_of (cells s a) @ continuation_pair c"
  by (cases "cells s a")
     (simp_all add: append_continuation_def records_of_def continuation_pair_def to_dict_def)

lemma cells_append_continuation_other:
  "b \<noteq> a \<Longrightarrow> cells (append_continuation a c s) b = cells s b"
  by (cases "cells s a") (simp_all add: append_continuation_def)

lemma first_stream_loop_ok:
  "list_all has_text rs \<Longrightarrow>
     first_stream_loop rs (PStr c) = (rs, Inr (PStr (c @ concat (map result_text rs))))"
proof (induction rs arbitrary: c)
  case Nil
  show ?case by simp
next
  case (Cons r rs)
  then have "body r ''result'' = Some (PStr (result_text r))" and "list_all has_text rs"
    by (simp_all add: has_text_D)
  with Cons.IH [of "c @ result_text r"] show ?case by (simp add: getitem_def)
qed

lemma next_stream_loop_ok:
  "list_all has_text rs \<Longrightarrow> list_all has_flag rs \<Longrightarrow>
     next_stream_loop rs (PStr c) t =
       (rs, Inr (PStr (c @ concat (map result_text rs)), if rs = [] then t else flag_of (last rs)))"
proof (induction rs arbitrary: c t)
  case Nil
  show ?case by simp
next
  case (Cons r rs)
  then have r: "body r ''result'' = Some (PStr (result_text r))"
      "body r ''is_truncated'' = Some (flag_of r)"
    and rest: "list_all has_text rs" "list_all has_flag rs"
    by (simp_all add: has_text_D has_flag_D)
  from Cons.IH [OF rest, of "c @ result_text r" "flag_of r"] r show ?case
    by (simp add: getitem_def)
qed

lemma stream_round_Stream:
  assumes "\<forall>req. ex (length (sent s)) req = Inr (Stream rs)"
    and "list_all has_text rs" and "list_all has_flag rs"
  shows "stream_round ex g p msgs cur t s =
     (rs, Inr (fragment_of (Stream rs), if rs = [] then t else flag_of (last rs)),
      (append_continuation msgs cur s)
        \<lparr>sent := sent s @ [\<lparr>req_params = p, req_stream = True,
                            req_messages = cells (append_continuation msgs cur s) msgs\<rparr>]\<rparr>)"
  using assms next_stream_loop_ok [OF assms(2,3), of "[]" t]
  by (simp add: stream_round_def private_do_def Let_def fragment_of_def)

lemma continuation_round_state:
  assumes "\<forall>req. ex (length (sent s)) req = Inr (Single r)"
    and "has_text r" and "has_flag r"
  shows "continuation_round ex p msgs cur (PStr acc) s =
     (Inr (fragment_of (Single r), PStr (acc @ result_text r), flag_of r, r),
      (append_continuation msgs cur s)
        \<lparr>sent := sent s @ [\<lparr>req_params = p, req_stream = False,
                            req_messages = cells (append_continuation msgs cur s) msgs\<rparr>]\<rparr>)"
  using assms(1) has_text_D [OF assms(2)] has_flag_D [OF assms(3)]
  by (simp add: continuation_round_def private_do_def Let_def getitem_def fragment_of_def)

lemma stream_rounds_script:
  assumes "answers ex (length (sent s)) (conts @ [fin])"
    and "list_all going_stream conts" and "final_stream fin" and "truthy t"
  shows "\<exists>s' reqs. stream_rounds ex g p msgs cur t yielded s
             = Some (yielded @ concat (map envelopes_of (conts @ [fin])), None, s')
           \<and> sent s' = sent s @ reqs
           \<and> map (records_of \<circ> req_messages) reqs
               = buffers (records_of (cells s msgs) @ continuation_pair cur) (map fragment_of conts)
           \<and> (\<forall>b. b \<noteq> msgs \<longrightarrow> cells s' b = cells s b)
           \<and> records_of (cells s' msgs)
               = last (buffers (records_of (cells s msgs) @ continuation_pair cur) (map fragment_of conts))"
  using assms
proof (induction conts arbitrary: s cur t yielded)
  case Nil
  from Nil.prems(3) obtain rs where fin: "fin = Stream rs" by (cases fin) simp_all
  with Nil.prems(3) have wf: "list_all has_text rs" "list_all has_flag rs"
    and ne: "rs \<noteq> []" and stop: "\<not> truthy (flag_of (last rs))" by simp_all
  from Nil.prems(1) fin have ex: "\<forall>req. ex (length (sent s)) req = Inr (Stream rs)"
    by (simp add: answers_Cons)
  show ?case
    using Nil.prems(4) ne stop fin
    by (simp add: stream_rounds_step stream_round_Stream [where ex=ex and s=s, OF ex wf]
        stream_rounds_stop records_of_append_continuation cells_append_continuation_other)
next
  case (Cons c conts)
  from Cons.prems(2) obtain rs where c: "c = Stream rs" by (cases c) simp_all
  with Cons.prems(2) have wf: "list_all has_text rs" "list_all has_flag rs"
    and go: "rs = [] \<or> truthy (flag_of (last rs))" and rest: "list_all going_stream conts"
    by simp_all
  from Cons.prems(1) c have ex: "\<forall>req. ex (length (sent s)) req = Inr (Stream rs)"
    and ans: "answers ex (Suc (length (sent s))) (conts @ [fin])"
    by (simp_all add: answers_Cons)
  define s1 where "s1 = (append_continuation msgs cur s)
        \<lparr>sent := sent s @ [\<lparr>req_params = p, req_stream = True,
                            req_messages = cells (append_continuation msgs cur s) msgs\<rparr>]\<rparr>"
  define t' where "t' = (if rs = [] then t else flag_of (last rs))"
  have t': "truthy t'" using go Cons.prems(4) by (auto simp: t'_def)
  have ans1: "answers ex (length (sent s1)) (conts @ [fin])" using ans by (simp add: s1_def)
  from Cons.IH [OF ans1 rest Cons.prems(3) t', of "fragment_of c" "yielded @ rs"]
  obtain s' reqs where IH:
    "stream_rounds ex g p msgs (fragment_of c) t' (yielded @ rs) s1
       = Some ((yielded @ rs) @ concat (map envelopes_of (conts @ [fin])), None, s')"
    "sent s' = sent s1 @ reqs"
    "map (records_of \<circ> req_messages) reqs
       = buffers (records_of (cells s1 msgs) @ continuation_pair (fragment_of c)) (map fragment_of conts)"
    "\<forall>b. b \<noteq> msgs \<longrightarrow> cells s' b = cells s1 b"
    "records_of (cells s' msgs)
       = last (buffers (records_of (cells s1 msgs) @ continuation_pair (fragment_of c)) (map fragment_of conts))"
    by blast
  have run: "stream_rounds ex g p msgs cur t yielded s
       = Some (yielded @ concat (map envelopes_of ((c # conts) @ [fin])), None, s')"
    using Cons.prems(4) IH(1) c
    by (simp add: stream_rounds_step stream_round_Stream [where ex=ex and s=s, OF ex wf]
        s1_def t'_def)
  have b1: "records_of (cells s1 msgs) = records_of (cells s msgs) @ continuation_pair cur"
    by (simp add: s1_def records_of_append_continuation)
  have log: "sent s' = sent s @ (\<lparr>req_params = p, req_stream = True,
                            req_messages = cells (append_continuation msgs cur s) msgs\<rparr> # reqs)"
    using IH(2) by (simp add: s1_def)
  have recs: "map (records_of \<circ> req_messages) (\<lparr>req_params = p, req_stream = True,
                            req_messages = cells (append_continuation msgs cur s) msgs\<rparr> # reqs)
       = buffers (records_of (cells s msgs) @ continuation_pair cur) (map fragment_of (c # conts))"
    using IH(3) b1 by (simp add: records_of_append_continuation)
  have frame: "\<forall>b. b \<noteq> msgs \<longrightarrow> cells s' b = cells s b"
    using IH(4) by (simp add: s1_def cells_append_continuation_other)
  have fin_buf: "records_of (cells s' msgs)
       = last (buffers (records_of (cells s msgs) @ continuation_pair cur) (map fragment_of (c # conts)))"
    using IH(5) b1 by (cases conts) simp_all
  from run log recs frame fin_buf show ?case by blast
qed

lemma concat_loop_script_log:
  assumes "answers ex (length (sent s)) (reps @ [fin])"
    and "list_all going_single reps" and "final_single fin" and "truthy t"
  shows "\<exists>s' r reqs. concat_loop ex p msgs cur (PStr acc) t resp s = Some (Inr r, s')
           \<and> sent s' = sent s @ reqs
           \<and> map (records_of \<circ> req_messages) reqs
               = buffers (records_of (cells s msgs) @ continuation_pair cur) (map fragment_of reps)
           \<and> (\<forall>b. b \<noteq> msgs \<longrightarrow> cells s' b = cells s b)
           \<and> records_of (cells s' msgs)
               = last (buffers (records_of (cells s msgs) @ continuation_pair cur) (map fragment_of reps))"
  using assms
proof (induction reps arbitrary: s cur acc t resp)
  case Nil
  from Nil.prems(3) obtain r where fin: "fin = Single r" by (cases fin) simp_all
  with Nil.prems(3) have wf: "has_text r" "has_flag r" and stop: "\<not> truthy (flag_of r)"
    by simp_all
  from Nil.prems(1) fin have ex: "\<forall>req. ex (length (sent s)) req = Inr (Single r)"
    by (simp add: answers_Cons)
  show ?case
    using Nil.prems(4) stop
    by (subst concat_loop.simps)
       (simp add: continuation_round_state [where ex=ex and s=s, OF ex wf]
          records_of_append_continuation cells_append_continuation_other)
next
  case (Cons c reps)
  from Cons.prems(2) obtain r where c: "c = Single r" by (cases c) simp_all
  with Cons.prems(2) have wf: "has_text r" "has_flag r"
    and go: "truthy (flag_of r)" and rest: "list_all going_single reps"
    by simp_all
  from Cons.prems(1) c have ex: "\<forall>req. ex (length (sent s)) req = Inr (Single r)"
    and ans: "answers ex (Suc (length (sent s))) (reps @ [fin])"
    by (simp_all add: answers_Cons)
  define s1 where "s1 = (append_continuation msgs cur s)
        \<lparr>sent := sent s @ [\<lparr>req_params = p, req_stream = False,
                            req_messages = cells (append_continuation msgs cur s) msgs\<rparr>]\<rparr>"
  have ans1: "answers ex (length (sent s1)) (reps @ [fin])" using ans by (simp add: s1_def)
  from Cons.IH [OF ans1 rest Cons.prems(3) go, of "fragment_of c" "acc @ result_text r" r]
  obtain s' r' reqs where IH:
    "concat_loop ex p msgs (fragment_of c) (PStr (acc @ result_text r)) (flag_of r) r s1
       = Some (Inr r', s')"
    "sent s' = sent s1 @ reqs"
    "map (records_of \<circ> req_messages) reqs
       = buffers (records_of (cells s1 msgs) @ continuation_pair (fragment_of c)) (map fragment_of reps)"
    "\<forall>b. b \<noteq> msgs \<longrightarrow> cells s' b = cells s1 b"
    "records_of (cells s' msgs)
       = last (buffers (records_of (cells s1 msgs) @ continuation_pair (fragment_of c)) (map fragment_of reps))"
    by blast
  have run: "concat_loop ex p msgs cur (PStr acc) t resp s = Some (Inr r', s')"
    using Cons.prems(4) IH(1) c go
    by (subst concat_loop.simps)
       (simp add: continuation_round_state [where ex=ex and s=s, OF ex wf] s1_def)
  have b1: "records_of (cells s1 msgs) = records_of (cells s msgs) @ continuation_pair cur"
    by (simp add: s1_def records_of_append_continuation)
  have log: "sent s' = sent s @ (\<lparr>req_params = p, req_stream = False,
                            req_messages = cells (append_continuation msgs cur s) msgs\<rparr> # reqs)"
    using IH(2) by (simp add: s1_def)
  have recs: "map (records_of \<circ> req_messages) (\<lparr>req_params = p, req_stream = False,
                            req_messages = cells (append_continuation msgs cur s) msgs\<rparr> # reqs)
       = buffers (records_of (cells s msgs) @ continuation_pair cur) (map fragment_of (c # reps))"
    using IH(3) b1 by (simp add: records_of_append_continuation)
  have frame: "\<forall>b. b \<noteq> msgs \<longrightarrow> cells s' b = cells s b"
    using IH(4) by (simp add: s1_def cells_append_continuation_other)
  have fin_buf: "records_of (cells s' msgs)
       = last (buffers (records_of (cells s msgs) @ continuation_pair cur) (map fragment_of (c # reps)))"
    using IH(5) b1 by (cases reps) simp_all
  from run log recs frame fin_buf show ?case by blast
qed

lemma buffers_not_Nil [simp]: "buffers b fs \<noteq> []"
  by (cases fs) simp_all

lemma length_buffers [simp]: "length (buffers b fs) = Suc (length fs)"
  by (induction fs arbitrary: b) simp_all

lemma buffers_nth:
  "j \<le> length fs \<Longrightarrow> buffers b fs ! j = b @ concat (map continuation_pair (take j fs))"
proof (induction fs arbitrary: b j)
  case Nil
  then show ?case by simp
next
  case (Cons f fs)
  show ?case
  proof (cases j)
    case 0
    then show ?thesis by simp
  next
    case (Suc i)
    with Cons.prems have "i \<le> length fs" by simp
    from Cons.IH [OF this, of "b @ continuation_pair f"] Suc show ?thesis by simp
  qed
qed

lemma length_concat_pairs:
  "length (concat (map continuation_pair fs)) = 2 * length fs"
  by (induction fs) (simp_all add: continuation_pair_def)

lemma do_native_stream_script:
  assumes "answers ex (length (sent s)) ((c # conts) @ [fin])"
    and "first_stream c" and "list_all going_stream conts" and "final_stream fin"
  shows "\<exists>s1 s' reqs.
           (do_native ex a kw p True True s :: ((exn + 'eb outcome) \<times> state) option)
             = Some (Inr (Producer (envelopes_of c) kw), s1)
         \<and> stream_concat_truncated ex g (envelopes_of c) kw p s1
             = Some (concat (map envelopes_of ((c # conts) @ [fin])), None, s')
         \<and> sent s' = sent s @ reqs
         \<and> map (records_of \<circ> req_messages) reqs
             = buffers (records_of (cells s kw)) (map fragment_of (c # conts))
         \<and> (\<forall>b. b \<noteq> kw \<longrightarrow> cells s' b = cells s b)
         \<and> records_of (cells s' kw)
             = last (buffers (records_of (cells s kw)) (map fragment_of (c # conts)))"
proof -
  from assms(2) obtain rs where c: "c = Stream rs" by (cases c) simp_all
  with assms(2) have wf: "list_all has_text rs" by simp
  from assms(1) c have ex: "\<forall>req. ex (length (sent s)) req = Inr (Stream rs)"
    and ans: "answers ex (Suc (length (sent s))) (conts @ [fin])"
    by (simp_all add: answers_Cons)
  define req0 where "req0 = \<lparr>req_params = p, req_stream = True, req_messages = cells s kw\<rparr>"
  define s1 where "s1 = s\<lparr>sent := sent s @ [req0]\<rparr>"
  have d: "(do_native ex a kw p True True s :: ((exn + 'eb outcome) \<times> state) option)
             = Some (Inr (Producer (envelopes_of c) kw), s1)"
    using ex c by (simp add: do_native_def private_do_def Let_def s1_def req0_def)
  have ans1: "answers ex (length (sent s1)) (conts @ [fin])" using ans by (simp add: s1_def)
  have tr: "truthy (PBool True)" by simp
  from stream_rounds_script [OF ans1 assms(3,4) tr, of g p kw "fragment_of c" rs]
  obtain s' reqs where R:
    "stream_rounds ex g p kw (fragment_of c) (PBool True) rs s1
       = Some (rs @ concat (map envelopes_of (conts @ [fin])), None, s')"
    "sent s' = sent s1 @ reqs"
    "map (records_of \<circ> req_messages) reqs
       = buffers (records_of (cells s1 kw) @ continuation_pair (fragment_of c)) (map fragment_of conts)"
    "\<forall>b. b \<noteq> kw \<longrightarrow> cells s' b = cells s1 b"
    "records_of (cells s' kw)
       = last (buffers (records_of (cells s1 kw) @ continuation_pair (fragment_of c)) (map fragment_of conts))"
    by blast
  have run: "stream_concat_truncated ex g (envelopes_of c) kw p s1
             = Some (concat (map envelopes_of ((c # conts) @ [fin])), None, s')"
    using R(1) c first_stream_loop_ok [OF wf, of "[]"]
    by (simp add: stream_concat_truncated_def fragment_of_def)
  have log: "sent s' = sent s @ (req0 # reqs)" using R(2) by (simp add: s1_def)
  have recs: "map (records_of \<circ> req_messages) (req0 # reqs)
             = buffers (records_of (cells s kw)) (map fragment_of (c # conts))"
    using R(3) by (simp add: s1_def req0_def)
  have frame: "\<forall>b. b \<noteq> kw \<longrightarrow> cells s' b = cells s b" using R(4) by (simp add: s1_def)
  have fin_buf: "records_of (cells s' kw)
             = last (buffers (records_of (cells s kw)) (map fragment_of (c # conts)))"
    using R(5) by (cases conts) (simp_all add: s1_def)
  from d run log recs frame fin_buf show ?thesis by blast
qed

lemma do_native_single_script:
  assumes "answers ex (length (sent s)) (reps @ [fin])"
    and "list_all going_single reps" and "final_single fin"
    and "records_of (cells s kw) = records_of (cells s a)"
  shows "\<exists>r s' reqs.
           (do_native ex a kw p False True s :: ((exn + 'eb outcome) \<times> state) option)
             = Some (Inr (Reply (Single r)), s')
         \<and> sent s' = sent s @ reqs
         \<and> map (records_of \<circ> req_messages) reqs
             = buffers (records_of (cells s a)) (map fragment_of reps)
         \<and> (\<forall>b. b < fresh s \<longrightarrow> cells s' b = cells s b)
         \<and> records_of (cells s' (fresh s))
             = last (buffers (records_of (cells s a)) (map fragment_of reps))"
proof (cases reps)
  case Nil
  from assms(3) obtain r where fin: "fin = Single r" by (cases fin) simp_all
  with assms(3) have wf: "has_text r" "has_flag r" and stop: "\<not> truthy (flag_of r)"
    by simp_all
  from assms(1) fin Nil have ex: "\<forall>req. ex (length (sent s)) req = Inr (Single r)"
    by (simp add: answers_Cons)
  show ?thesis
    using Nil stop assms(4)
    by (simp add: do_native_first_response [where ex=ex and s=s,
          OF ex has_text_D [OF wf(1)] has_flag_D [OF wf(2)]] concat_loop_not_truncated
          after_first_def deepcopy_def alloc_def)
next
  case (Cons c reps')
  from assms(2) Cons obtain r where c: "c = Single r" by (cases c) simp_all
  with assms(2) Cons have wf: "has_text r" "has_flag r"
    and go: "truthy (flag_of r)" and rest: "list_all going_single reps'"
    by simp_all
  from assms(1) c Cons have ex: "\<forall>req. ex (length (sent s)) req = Inr (Single r)"
    and ans: "answers ex (Suc (length (sent s))) (reps' @ [fin])"
    by (simp_all add: answers_Cons)
  define req0 where "req0 = \<lparr>req_params = p, req_stream = False, req_messages = cells s kw\<rparr>"
  define s2 where "s2 = after_first p a kw s"
  have ans2: "answers ex (length (sent s2)) (reps' @ [fin])" using ans by (simp add: s2_def)
  have frag: "fragment_of c = PStr (result_text r)" using c by (simp add: fragment_of_def)
  have copy: "records_of (cells s2 (fresh s)) = records_of (cells s a)"
    by (simp add: s2_def after_first_def deepcopy_def alloc_def)
  have old: "\<forall>b. b < fresh s \<longrightarrow> cells s2 b = cells s b"
    by (simp add: s2_def after_first_def deepcopy_def alloc_def)
  from concat_loop_script_log [OF ans2 rest assms(3) go, of p "fresh s" "fragment_of c" "result_text r" r]
  obtain s' r' reqs where R:
    "concat_loop ex p (fresh s) (fragment_of c) (PStr (result_text r)) (flag_of r) r s2
       = Some (Inr r', s')"
    "sent s' = sent s2 @ reqs"
    "map (records_of \<circ> req_messages) reqs
       = buffers (records_of (cells s2 (fresh s)) @ continuation_pair (fragment_of c)) (map fragment_of reps')"
    "\<forall>b. b \<noteq> fresh s \<longrightarrow> cells s' b = cells s2 b"
    "records_of (cells s' (fresh s))
       = last (buffers (records_of (cells s2 (fresh s)) @ continuation_pair (fragment_of c)) (map fragment_of reps'))"
    by blast
  have d: "(do_native ex a kw p False True s :: ((exn + 'eb outcome) \<times> state) option)
             = Some (Inr (Reply (Single r')), s')"
    using R(1) frag
    by (simp add: do_native_first_response [where ex=ex and s=s,
          OF ex has_text_D [OF wf(1)] has_flag_D [OF wf(2)]] s2_def)
  have log: "sent s' = sent s @ (req0 # reqs)" using R(2) by (simp add: s2_def req0_def)
  have recs: "map (records_of \<circ> req_messages) (req0 # reqs)
             = buffers (records_of (cells s a)) (map fragment_of reps)"
    using R(3) copy assms(4) Cons by (simp add: req0_def)
  have frame: "\<forall>b. b < fresh s \<longrightarrow> cells s' b = cells s b" using R(4) old by simp
  have fin_buf: "records_of (cells s' (fresh s))
             = last (buffers (records_of (cells s a)) (map fragment_of reps))"
    using R(5) copy Cons by (cases reps') simp_all
  from d log recs frame fin_buf show ?thesis by blast
qed

lemma last_buffers: "last (buffers b fs) = b @ concat (map continuation_pair fs)"
proof -
  have "last (buffers b fs) = buffers b fs ! length fs"
    by (simp add: last_conv_nth)
  also have "\<dots> = b @ concat (map continuation_pair (take (length fs) fs))"
    by (rule buffers_nth) simp
  finally show ?thesis by simp
qed

lemma request_buffers:
  assumes "map (records_of \<circ> req_messages) reqs = buffers b (map fragment_of reps)"
  shows "length reqs = Suc (length reps)"
    and "j \<le> length reps \<Longrightarrow>
           records_of (req_messages (reqs ! j))
             = b @ concat (map (continuation_pair \<circ> fragment_of) (take j reps))"
    and "j \<le> length reps \<Longrightarrow> length (records_of (req_messages (reqs ! j))) = length b + 2 * j"
proof -
  from assms have "length (map (records_of \<circ> req_messages) reqs) = length (buffers b (map fragment_of reps))"
    by simp
  then show len: "length reqs = Suc (length reps)" by simp
  have nth: "records_of (req_messages (reqs ! j))
             = b @ concat (map (continuation_pair \<circ> fragment_of) (take j reps))"
    if j: "j \<le> length reps" for j
  proof -
    from j len have "j < length reqs" by simp
    then have "records_of (req_messages (reqs ! j)) = map (records_of \<circ> req_messages) reqs ! j"
      by simp
    also have "\<dots> = buffers b (map fragment_of reps) ! j" using assms by simp
    also have "\<dots> = b @ concat (map continuation_pair (take j (map fragment_of reps)))"
      using j by (intro buffers_nth) simp
    finally show ?thesis by (simp add: take_map)
  qed
  show "j \<le> length reps \<Longrightarrow>
           records_of (req_messages (reqs ! j))
             = b @ concat (map (continuation_pair \<circ> fragment_of) (take j reps))"
    by (rule nth)
  show "j \<le> length reps \<Longrightarrow> length (records_of (req_messages (reqs ! j))) = length b + 2 * j"
    using nth [of j] length_concat_pairs [of "map fragment_of (take j reps)"]
    by simp
qed

lemma do_script_log:
  assumes ne: "\<not> eb_selected cfg (model p)"
    and alloc: "a < fresh s"
    and ans: "answers ex (length (sent s)) (reps @ [fin])"
    and ok: "script_ok strm reps fin"
  shows "\<exists>s' reqs w.
       (if strm
        then (\<exists>first kw s1 ys.
               do cfg au eb ex a p strm True s = Some (Inr (Producer first kw), s1)
             \<and> stream_concat_truncated ex g first kw p s1 = Some (ys, None, s')
             \<and> ys = concat (map envelopes_of (reps @ [fin])))
        else (\<exists>r. do cfg au eb ex a p strm True s = Some (Inr (Reply (Single r)), s')))
     \<and> sent s' = sent s @ reqs
     \<and> map (records_of \<circ> req_messages) reqs = buffers (records_of (cells s a)) (map fragment_of reps)
     \<and> records_of (cells s' w) = last (buffers (records_of (cells s a)) (map fragment_of reps))"
proof -
  define s0 where "s0 = (case cells s a of QfMessagesObj ms \<Rightarrow> snd (to_list ms s) | PyList xs \<Rightarrow> s)"
  define kw where "kw = (case cells s a of QfMessagesObj ms \<Rightarrow> fresh s | PyList xs \<Rightarrow> a)"
  have d: "do cfg au eb ex a p strm True s = do_native ex a kw p strm True s0"
    by (simp add: do_not_selected [OF ne] s0_def kw_def split: pyobj.splits)
  have s0: "sent s0 = sent s" "records_of (cells s0 kw) = records_of (cells s a)"
    "cells s0 a = cells s a"
    using alloc
    by (simp_all add: s0_def kw_def to_list_def alloc_def records_of_def split: pyobj.splits)
  from ans s0 have ans0: "answers ex (length (sent s0)) (reps @ [fin])" by simp
  show ?thesis
  proof (cases strm)
    case True
    with ok obtain c conts where reps: "reps = c # conts"
      and wf: "first_stream c" "list_all going_stream conts" "final_stream fin"
      by (cases reps) simp_all
    from ans0 reps have ans': "answers ex (length (sent s0)) ((c # conts) @ [fin])" by simp
    from do_native_stream_script [OF ans' wf, of a kw p g]
    obtain s1 s' reqs where R:
      "(do_native ex a kw p True True s0 :: ((exn + 'a outcome) \<times> state) option)
             = Some (Inr (Producer (envelopes_of c) kw), s1)"
      "stream_concat_truncated ex g (envelopes_of c) kw p s1
             = Some (concat (map envelopes_of ((c # conts) @ [fin])), None, s')"
      "sent s' = sent s0 @ reqs"
      "map (records_of \<circ> req_messages) reqs
             = buffers (records_of (cells s0 kw)) (map fragment_of (c # conts))"
      "records_of (cells s' kw)
             = last (buffers (records_of (cells s0 kw)) (map fragment_of (c # conts)))"
      by blast
    have 1: "\<exists>first kw s1 ys.
               do cfg au eb ex a p strm True s = Some (Inr (Producer first kw), s1)
             \<and> stream_concat_truncated ex g first kw p s1 = Some (ys, None, s')
             \<and> ys = concat (map envelopes_of (reps @ [fin]))"
      using R(1,2) True reps d by simp
    have 2: "sent s' = sent s @ reqs" using R(3) s0 by simp
    have 3: "map (records_of \<circ> req_messages) reqs
        = buffers (records_of (cells s a)) (map fragment_of reps)"
      using R(4) s0 reps by simp
    have 4: "records_of (cells s' kw) = last (buffers (records_of (cells s a)) (map fragment_of reps))"
      using R(5) s0 reps by simp
    from 1 2 3 4 True show ?thesis by auto
  next
    case False
    with ok have wf: "list_all going_single reps" "final_single fin" by simp_all
    have same: "records_of (cells s0 kw) = records_of (cells s0 a)" using s0 by simp
    from do_native_single_script [OF ans0 wf same, of p]
    obtain r s' reqs where R:
      "(do_native ex a kw p False True s0 :: ((exn + 'a outcome) \<times> state) option)
             = Some (Inr (Reply (Single r)), s')"
      "sent s' = sent s0 @ reqs"
      "map (records_of \<circ> req_messages) reqs
             = buffers (records_of (cells s0 a)) (map fragment_of reps)"
      "records_of (cells s' (fresh s0))
             = last (buffers (records_of (cells s0 a)) (map fragment_of reps))"
      by blast
    have 1: "\<exists>r. do cfg au eb ex a p strm True s = Some (Inr (Reply (Single r)), s')"
      using R(1) False d by simp
    have 2: "sent s' = sent s @ reqs" using R(2) s0 by simp
    have 3: "map (records_of \<circ> req_messages) reqs
        = buffers (records_of (cells s a)) (map fragment_of reps)"
      using R(3) s0 by simp
    have 4: "records_of (cells s' (fresh s0)) = last (buffers (records_of (cells s a)) (map fragment_of reps))"
      using R(4) s0 by simp
    from 1 2 3 4 False show ?thesis by auto
  qed
qed

text \<open>
  C5. A streaming call with \<^verbatim>\<open>auto_concat_truncate=True\<close> on the native path, the
  producer consumed to its end: when the executor answers with the streams
  \<open>reps @ [fin]\<close> (a first stream, streams that leave the last flag seen true, a final
  stream that ends with a flag that is not), the producer ends normally and has yielded
  the envelopes of every stream, as they are and in order: their number is the sum of
  the numbers of envelopes of the calls, and one call per stream was made.
\<close>

theorem producer_yields_every_envelope:
  assumes "\<not> eb_selected cfg (model p)"
    and "answers ex (length (sent s)) (reps @ [fin])"
    and "script_ok True reps fin"
  shows "\<exists>first kw s1 ys s2.
           do cfg au eb ex a p True True s = Some (Inr (Producer first kw), s1)
         \<and> first = envelopes_of (hd reps)
         \<and> stream_concat_truncated ex g first kw p s1 = Some (ys, None, s2)
         \<and> ys = concat (map envelopes_of (reps @ [fin]))
         \<and> length ys = sum_list (map (length \<circ> envelopes_of) (reps @ [fin]))
         \<and> length (sent s2) = length (sent s) + length (reps @ [fin])"
proof -
  define s0 where "s0 = (case cells s a of QfMessagesObj ms \<Rightarrow> snd (to_list ms s) | PyList xs \<Rightarrow> s)"
  define kw where "kw = (case cells s a of QfMessagesObj ms \<Rightarrow> fresh s | PyList xs \<Rightarrow> a)"
  have d: "do cfg au eb ex a p True True s = do_native ex a kw p True True s0"
    by (simp add: do_not_selected [OF assms(1)] s0_def kw_def split: pyobj.splits)
  have s0: "sent s0 = sent s"
    by (simp add: s0_def split: pyobj.splits)
  from assms(3) obtain c conts where reps: "reps = c # conts"
    and wf: "first_stream c" "list_all going_stream conts" "final_stream fin"
    by (cases reps) simp_all
  from assms(2) reps s0 have ans: "answers ex (length (sent s0)) ((c # conts) @ [fin])" by simp
  from do_native_stream_script [OF ans wf, of a kw p g]
  obtain s1 s2 reqs where R:
    "(do_native ex a kw p True True s0 :: ((exn + 'a outcome) \<times> state) option)
           = Some (Inr (Producer (envelopes_of c) kw), s1)"
    "stream_concat_truncated ex g (envelopes_of c) kw p s1
           = Some (concat (map envelopes_of ((c # conts) @ [fin])), None, s2)"
    "sent s2 = sent s0 @ reqs"
    "map (records_of \<circ> req_messages) reqs
           = buffers (records_of (cells s0 kw)) (map fragment_of (c # conts))"
    by blast
  from R(4) have "length reqs = Suc (length reps)"
    using request_buffers(1) reps by blast
  with R(3) s0 have n: "length (sent s2) = length (sent s) + length (reps @ [fin])" by simp
  have len: "length (concat (map envelopes_of (reps @ [fin])))
      = sum_list (map (length \<circ> envelopes_of) (reps @ [fin]))"
    by (simp add: length_concat comp_def)
  from R(1,2) d reps n len show ?thesis by simp
qed

theorem producer_yields_every_envelope_witness:
  "\<exists>kw s1 s2.
     do native_config some_auth (\<lambda>_. ())
        (scripted [Stream [envelope ''a'' True, envelope ''b'' True],
                   Stream [envelope ''c'' True, envelope ''d'' False]])
        0 default_params True True buffer_store
       = Some (Inr (Producer [envelope ''a'' True, envelope ''b'' True] kw), s1)
   \<and> stream_concat_truncated
        (scripted [Stream [envelope ''a'' True, envelope ''b'' True],
                   Stream [envelope ''c'' True, envelope ''d'' False]])
        Suspending [envelope ''a'' True, envelope ''b'' True] kw default_params s1
       = Some ([envelope ''a'' True, envelope ''b'' True, envelope ''c'' True, envelope ''d'' False],
               None, s2)
   \<and> length (sent s2) = 2"
proof -
  let ?r1 = "Stream [envelope ''a'' True, envelope ''b'' True]"
  let ?r2 = "Stream [envelope ''c'' True, envelope ''d'' False]"
  have h1: "\<not> eb_selected native_config (model default_params)" by simp
  have h2: "answers (scripted [?r1, ?r2]) (length (sent buffer_store)) ([?r1] @ [?r2])"
    using answers_scripted [of "[?r1, ?r2]"] by (simp add: buffer_store_def)
  have h3: "script_ok True [?r1] ?r2"
    by (simp add: has_text_def has_flag_def flag_of_def envelope_def)
  from producer_yields_every_envelope [OF h1 h2 h3, of some_auth "\<lambda>_. ()" 0 Suspending]
  show ?thesis by (auto simp: buffer_store_def)
qed

text \<open>
  C6. A call with \<^verbatim>\<open>auto_concat_truncate=True\<close> on the native path that runs to its end,
  streaming (the producer consumed) or not, with the replies \<open>reps @ [fin]\<close>: it makes
  one request per reply, and the request of round \<open>j\<close> (the first call is round 0)
  carries the entries of the caller's messages followed by, for each earlier reply in
  order, the assistant's record with that reply's fragment and the user's record with
  the continuation text, and nothing else: two more entries per round. The working
  buffer is left with the entries of all \<open>length reps\<close> rounds.
\<close>

theorem continuation_rounds_append_two_records:
  assumes "\<not> eb_selected cfg (model p)"
    and "a < fresh s"
    and "answers ex (length (sent s)) (reps @ [fin])"
    and "script_ok strm reps fin"
  shows "\<exists>s' reqs w.
       (if strm
        then (\<exists>first kw s1 ys.
               do cfg au eb ex a p strm True s = Some (Inr (Producer first kw), s1)
             \<and> stream_concat_truncated ex g first kw p s1 = Some (ys, None, s'))
        else (\<exists>r. do cfg au eb ex a p strm True s = Some (Inr (Reply (Single r)), s')))
     \<and> sent s' = sent s @ reqs
     \<and> length reqs = Suc (length reps)
     \<and> (\<forall>j\<le>length reps.
           records_of (req_messages (reqs ! j))
             = records_of (cells s a) @ concat (map (continuation_pair \<circ> fragment_of) (take j reps))
         \<and> length (records_of (req_messages (reqs ! j))) = length (records_of (cells s a)) + 2 * j)
     \<and> records_of (cells s' w)
           = records_of (cells s a) @ concat (map (continuation_pair \<circ> fragment_of) reps)
     \<and> length (records_of (cells s' w)) = length (records_of (cells s a)) + 2 * length reps"
proof -
  from do_script_log [OF assms, of au eb g]
  obtain s' reqs w where R:
    "if strm
        then (\<exists>first kw s1 ys.
               do cfg au eb ex a p strm True s = Some (Inr (Producer first kw), s1)
             \<and> stream_concat_truncated ex g first kw p s1 = Some (ys, None, s')
             \<and> ys = concat (map envelopes_of (reps @ [fin])))
        else (\<exists>r. do cfg au eb ex a p strm True s = Some (Inr (Reply (Single r)), s'))"
    "sent s' = sent s @ reqs"
    "map (records_of \<circ> req_messages) reqs = buffers (records_of (cells s a)) (map fragment_of reps)"
    "records_of (cells s' w) = last (buffers (records_of (cells s a)) (map fragment_of reps))"
    by blast
  from R(1) have 1: "if strm
        then (\<exists>first kw s1 ys.
               do cfg au eb ex a p strm True s = Some (Inr (Producer first kw), s1)
             \<and> stream_concat_truncated ex g first kw p s1 = Some (ys, None, s'))
        else (\<exists>r. do cfg au eb ex a p strm True s = Some (Inr (Reply (Single r)), s'))"
    by (cases strm) auto
  note rb = request_buffers [OF R(3)]
  have 4: "records_of (cells s' w)
           = records_of (cells s a) @ concat (map (continuation_pair \<circ> fragment_of) reps)"
    using R(4) by (simp add: last_buffers)
  have 5: "length (records_of (cells s' w)) = length (records_of (cells s a)) + 2 * length reps"
    using 4 length_concat_pairs [of "map fragment_of reps"] by simp
  from 1 R(2) rb 4 5 show ?thesis by blast
qed

theorem continuation_rounds_append_two_records_witness:
  "\<exists>r s'.
     do native_config some_auth (\<lambda>_. ())
        (scripted [Single (envelope ''ab'' True), Single (envelope ''cd'' False)])
        0 default_params False True buffer_store = Some (Inr (Reply (Single r)), s')
   \<and> length (sent s') = 2
   \<and> records_of (req_messages (sent s' ! 0)) = [hi]
   \<and> records_of (req_messages (sent s' ! 1)) = [hi, assistant_ab, user_continue]"
proof -
  let ?r1 = "Single (envelope ''ab'' True)"
  let ?r2 = "Single (envelope ''cd'' False)"
  have h1: "\<not> eb_selected native_config (model default_params)" by simp
  have h2: "(0::nat) < fresh buffer_store" by (simp add: buffer_store_def)
  have h3: "answers (scripted [?r1, ?r2]) (length (sent buffer_store)) ([?r1] @ [?r2])"
    using answers_scripted [of "[?r1, ?r2]"] by (simp add: buffer_store_def)
  have h4: "script_ok False [?r1] ?r2"
    by (simp add: has_text_def has_flag_def flag_of_def envelope_def)
  from continuation_rounds_append_two_records [OF h1 h2 h3 h4, of some_auth "\<lambda>_. ()" Blocking]
  obtain s' reqs r where R:
    "do native_config some_auth (\<lambda>_. ()) (scripted [?r1, ?r2]) 0 default_params False True buffer_store
       = Some (Inr (Reply (Single r)), s')"
    "sent s' = sent buffer_store @ reqs"
    "length reqs = Suc (length [?r1])"
    "\<forall>j\<le>length [?r1].
           records_of (req_messages (reqs ! j))
             = records_of (cells buffer_store 0) @ concat (map (continuation_pair \<circ> fragment_of) (take j [?r1]))
         \<and> length (records_of (req_messages (reqs ! j))) = length (records_of (cells buffer_store 0)) + 2 * j"
    by auto
  from R(4) have "records_of (req_messages (reqs ! 0)) = [hi]"
    and "records_of (req_messages (reqs ! 1)) = [hi, assistant_ab, user_continue]"
    by (simp_all add: buffer_store_def records_of_def to_dict_def hi_def fragment_of_def
        continuation_pair_def assistant_ab_def user_continue_def)
  with R(1,2,3) show ?thesis by (simp add: buffer_store_def)
qed

section \<open>The caller's messages object and the form of the requests\<close>

lemma continuation_round_frame:
  "b \<noteq> msgs \<Longrightarrow> cells (snd (continuation_round ex p msgs cur entire s)) b = cells s b"
  by (simp add: continuation_round_def private_do_def Let_def cells_append_continuation_other
      split: sum.splits reply.splits prod.splits)

lemma continuation_round_fresh:
  "fresh (snd (continuation_round ex p msgs cur entire s)) = fresh s"
  by (simp add: continuation_round_def private_do_def Let_def
      split: sum.splits reply.splits prod.splits)

lemma concat_loop_frame:
  assumes "concat_loop ex p msgs cur entire t resp s = Some y"
  shows "\<forall>b. b \<noteq> msgs \<longrightarrow> cells (snd y) b = cells s b"
proof (rule concat_loop.raw_induct
    [where P = "\<lambda>ex p msgs cur entire t resp s y. \<forall>b. b \<noteq> msgs \<longrightarrow> cells (snd y) b = cells s b",
     OF _ assms], goal_cases)
  case (1 loop ex p msgs cur entire t resp s y)
  show ?case
  proof (cases "truthy t")
    case False
    with 1(2) show ?thesis by auto
  next
    case True
    obtain r s1 where r: "continuation_round ex p msgs cur entire s = (r, s1)"
      by (cases "continuation_round ex p msgs cur entire s")
    have fr: "\<forall>b. b \<noteq> msgs \<longrightarrow> cells s1 b = cells s b"
      using continuation_round_frame [of _ msgs ex p cur entire s] r by simp
    show ?thesis
    proof (cases r)
      case (Inl e)
      with 1(2) True r fr show ?thesis by auto
    next
      case (Inr q)
      obtain cur' entire' t' resp' where q: "q = (cur', entire', t', resp')" by (cases q)
      show ?thesis
      proof (cases "truthy t'")
        case False
        with 1(2) True r Inr q fr show ?thesis by auto
      next
        case t': True
        with 1(2) True r Inr q have "loop ex p msgs cur' entire' t' resp' s1 = Some y" by simp
        from 1(1) [OF this] fr show ?thesis by simp
      qed
    qed
  qed
qed

text \<open>
  The non-streaming path works on a deep copy: whatever the executor does and however
  the call ends, the caller's object is as it was.
\<close>

lemma do_nonstreaming_leaves_callers_messages:
  assumes "a < fresh s"
    and "do cfg au eb ex a p False auto s = Some (res, s')"
  shows "cells s' a = cells s a"
proof -
  have nat: "cells s2 a = cells s0 a"
    if "(do_native ex a kw p False auto s0 :: ((exn + 'a outcome) \<times> state) option) = Some (res, s2)"
      and "a < fresh s0" for kw s0 s2
  proof -
    obtain r1 s1 where pd: "private_do ex p False kw s0 = (r1, s1)"
      by (cases "private_do ex p False kw s0")
    then have s1: "cells s1 = cells s0" "fresh s1 = fresh s0"
      by (auto simp: private_do_def Let_def)
    have loop: "cells s3 a = cells s0 a"
      if dc: "deepcopy a s1 = (m, sc)"
        and run: "concat_loop ex p m cur entire t r sc = Some (y, s3)"
      for m sc cur entire t r y s3
    proof -
      from dc s1 \<open>a < fresh s0\<close> have m: "a \<noteq> m" "cells sc a = cells s0 a"
        by (auto simp: deepcopy_def alloc_def)
      from concat_loop_frame [OF run] m show ?thesis by simp
    qed
    from that(1) pd s1 show ?thesis
      by (auto simp: do_native_def
          split: sum.splits reply.splits if_splits option.splits prod.splits dest: loop)
  qed
  show ?thesis
  proof (cases "eb_selected cfg (model p)")
    case True
    then obtain m where m: "model p = Some m"
      by (auto simp: eb_selected_def split: option.splits)
    from assms show ?thesis
      by (auto simp: do_selected [OF True m] to_list_def alloc_def split: pyobj.splits)
  next
    case False
    show ?thesis
    proof (cases "cells s a")
      case (PyList xs)
      with assms(2) False have "do_native ex a a p False auto s = Some (res, s')"
        by (simp add: do_not_selected)
      from nat [OF this assms(1)] show ?thesis .
    next
      case (QfMessagesObj ms)
      with assms(2) False
      have d: "do_native ex a (fresh s) p False auto (snd (to_list ms s)) = Some (res, s')"
        by (simp add: do_not_selected)
      have "a < fresh (snd (to_list ms s))" using assms(1) by (simp add: to_list_def alloc_def)
      from nat [OF d this] assms(1) show ?thesis by (simp add: to_list_def alloc_def)
    qed
  qed
qed

text \<open>
  C3 (the code falls short of it). The claim: with \<^verbatim>\<open>auto_concat_truncate=True\<close>,
  streaming or not, the caller's messages object keeps exactly the entries it had, the
  appends going to a deep copy. \<^verbatim>\<open>do\<close> makes the deep copy on its non-streaming path
  only (line 284). On the streaming path it hands \<^verbatim>\<open>kwargs["messages"]\<close>, for a raw
  record list the caller's own list, to \<^verbatim>\<open>_stream_concat_truncated\<close>, which appends to
  it: after the producer is consumed, the caller's list at address 0 holds three
  entries instead of one.
\<close>

theorem producer_appends_to_callers_list:
  "\<forall>g. \<exists>s1 s2.
     do native_config some_auth (\<lambda>_. ()) truncated_streams 0 default_params True True list_store
       = Some (Inr (Producer [envelope ''ab'' True] 0), s1)
     \<and> stream_concat_truncated truncated_streams g [envelope ''ab'' True] 0 default_params s1
       = Some ([envelope ''ab'' True, envelope ''cd'' False], None, s2)
     \<and> cells list_store 0 = PyList [hi]
     \<and> cells s2 0 = PyList [hi, assistant_ab, user_continue]"
  by (simp add: do_def do_native_def private_do_def list_store_def truncated_streams_def
      scripted_def stream_concat_truncated_def stream_rounds_step stream_rounds_stop
      stream_round_def append_continuation_def assistant_ab_def user_continue_def
      eb_selected_def native_config_def)

text \<open>
  C4 (the code falls short of it). The claim: every request of \<^verbatim>\<open>do\<close>, first call or
  continuation round, carries its messages as a plain record list. The first call
  does (lines 236-239 put \<^verbatim>\<open>messages._to_list()\<close> into \<^verbatim>\<open>kwargs\<close>), and so does the
  streaming path. The non-streaming loop puts its working buffer, the deep copy of the
  caller's \<^verbatim>\<open>messages\<close>, into \<^verbatim>\<open>kwargs["messages"]\<close> as it is (line 293): for a caller
  who passed a \<^verbatim>\<open>QfMessages\<close> buffer, the continuation request carries a \<^verbatim>\<open>QfMessages\<close>
  object.
\<close>

theorem continuation_request_carries_QfMessages:
  "\<exists>r s'.
     do native_config some_auth (\<lambda>_. ()) truncated_singles 0 default_params False True buffer_store
       = Some (Inr (Reply (Single r)), s')
     \<and> map req_messages (sent s')
         = [PyList [hi],
            QfMessagesObj [\<lparr>qf_role = User, qf_content = PStr ''hi''\<rparr>,
                           \<lparr>qf_role = Assistant, qf_content = PStr ''ab''\<rparr>,
                           \<lparr>qf_role = User, qf_content = PStr continue_prompt\<rparr>]]"
  by (simp add: do_def do_native_def private_do_def buffer_store_def truncated_singles_def
      scripted_def to_list_def deepcopy_def alloc_def to_dict_def hi_def
      concat_loop.simps [of _ _ _ _ _ "PBool True"] continuation_round_def
      append_continuation_def eb_selected_def native_config_def)

section \<open>The producer always makes a further call\<close>

lemma sent_stream_round:
  "\<exists>req. sent (snd (snd (stream_round ex g p msgs cur t s))) = sent s @ [req]
      \<and> req_stream req \<and> req_messages req = cells (append_continuation msgs cur s) msgs"
  by (simp add: stream_round_def private_do_def Let_def split: sum.splits reply.splits prod.splits)

lemma stream_rounds_log_grows:
  assumes "stream_rounds ex g p msgs cur t yielded s = Some y"
  shows "\<exists>more. sent (snd (snd y)) = sent s @ more"
proof (rule stream_rounds.raw_induct
    [where P = "\<lambda>ex g p msgs cur t yielded s y. \<exists>more. sent (snd (snd y)) = sent s @ more",
     OF _ assms], goal_cases)
  case (1 rounds ex g p msgs cur t yielded s y)
  show ?case
  proof (cases "truthy t")
    case False
    with 1(2) show ?thesis by auto
  next
    case True
    obtain ys out s1 where r: "stream_round ex g p msgs cur t s = (ys, out, s1)"
      by (cases "stream_round ex g p msgs cur t s") auto
    from sent_stream_round [of ex g p msgs cur t s] r
    obtain req where req: "sent s1 = sent s @ [req]" by auto
    show ?thesis
    proof (cases out)
      case (Inl e)
      with 1(2) True r req show ?thesis by auto
    next
      case (Inr q)
      obtain cur' t' where q: "q = (cur', t')" by (cases q)
      with 1(2) True r Inr have "rounds ex g p msgs cur' t' (yielded @ ys) s1 = Some y" by simp
      from 1(1) [OF this] req show ?thesis by auto
    qed
  qed
qed

text \<open>
  Whatever the flags of the first stream are: when its envelopes can be read (each has
  a string \<^verbatim>\<open>result\<close>) and the producer ends, the producer has appended the
  continuation records to its messages and sent at least one further request.
\<close>

lemma producer_always_issues_a_round:
  assumes "list_all has_text first"
    and "stream_concat_truncated ex g first msgs p s = Some (ys, out, s')"
  shows "\<exists>req more. sent s' = sent s @ req # more
     \<and> records_of (req_messages req)
         = records_of (cells s msgs) @ continuation_pair (fragment_of (Stream first))"
proof -
  let ?cur = "fragment_of (Stream first)"
  from assms have run: "stream_rounds ex g p msgs ?cur (PBool True) first s = Some (ys, out, s')"
    by (simp add: stream_concat_truncated_def first_stream_loop_ok [OF assms(1), of "[]"]
        fragment_of_def)
  obtain zs o1 s1 where r: "stream_round ex g p msgs ?cur (PBool True) s = (zs, o1, s1)"
    by (cases "stream_round ex g p msgs ?cur (PBool True) s") auto
  from sent_stream_round [of ex g p msgs ?cur "PBool True" s] r
  obtain req where req: "sent s1 = sent s @ [req]"
    "req_messages req = cells (append_continuation msgs ?cur s) msgs" by auto
  have recs: "records_of (req_messages req)
         = records_of (cells s msgs) @ continuation_pair ?cur"
    using req(2) by (simp add: records_of_append_continuation)
  show ?thesis
  proof (cases o1)
    case (Inl e)
    with run r have "s' = s1" by (simp add: stream_rounds_step)
    with req recs show ?thesis by auto
  next
    case (Inr q)
    obtain cur' t' where q: "q = (cur', t')" by (cases q)
    with run r Inr have "stream_rounds ex g p msgs cur' t' (first @ zs) s1 = Some (ys, out, s')"
      by (simp add: stream_rounds_step)
    from stream_rounds_log_grows [OF this] req recs show ?thesis by auto
  qed
qed

end
